theory Spec2Isabelle
  imports Complex_Main "HOL-Library.Word" "HOL-Library.Log_Nat"
begin

unbundle bit_operations_syntax

section \<open>Machine model\<close>

text \<open>
  \<^verbatim>\<open>std::size_t\<close> is a 64-bit unsigned integer: \<^verbatim>\<open>+\<close>, \<^verbatim>\<open>-\<close> and \<^verbatim>\<open><<\<close> wrap around.
  The load factor is the \<^verbatim>\<open>float\<close> constant \<^verbatim>\<open>0.5f\<close>; an expression that mixes a
  \<^verbatim>\<open>size_t\<close> with it converts the integer to IEEE-754 binary32 (24 significant bits,
  round to nearest, ties to even).  Multiplying or dividing a binary32 value by \<^verbatim>\<open>0.5f\<close>
  is exact in the range of a \<^verbatim>\<open>size_t\<close>, so only the conversion rounds; float values are
  carried as reals.
\<close>

type_synonym size_t = "64 word"

datatype error =
    Assertion_failed      \<comment> \<open>\<^verbatim>\<open>assert\<close> fails in a build without \<^verbatim>\<open>NDEBUG\<close>\<close>
  | Out_of_bounds         \<comment> \<open>\<^verbatim>\<open>m_buckets[idx]\<close> with \<^verbatim>\<open>idx >= m_buckets.size()\<close>\<close>
  | Length_error          \<comment> \<open>\<^verbatim>\<open>m_buckets.resize\<close> beyond what the allocator provides\<close>
  | Float_out_of_range    \<comment> \<open>a float that does not fit \<^verbatim>\<open>size_t\<close> is converted to it\<close>
  | Key_not_found         \<comment> \<open>\<^verbatim>\<open>std::out_of_range\<close> thrown by \<^verbatim>\<open>at\<close>\<close>

definition round_to_float :: "nat \<Rightarrow> nat" where
  "round_to_float n =
     (let e = floorlog 2 n - 24; q = n div 2 ^ e; r = n mod 2 ^ e
      in if 2 ^ e < 2 * r \<or> (2 ^ e = 2 * r \<and> odd q) then (q + 1) * 2 ^ e else q * 2 ^ e)"

definition float_of_size_t :: "size_t \<Rightarrow> real" where
  "float_of_size_t n = real (round_to_float (unat n))"

definition size_t_of_float :: "real \<Rightarrow> error + size_t" where
  "size_t_of_float x =
     (if x < 2 ^ 64 then Inr (word_of_nat (nat \<lfloor>x\<rfloor>)) else Inl Float_out_of_range)"

definition DEFAULT_MAX_LOAD_FACTOR :: real where
  "DEFAULT_MAX_LOAD_FACTOR = 1 / 2"

section \<open>Growth policy (\<^verbatim>\<open>power_of_two_growth_policy.h\<close>)\<close>

definition compute_index :: "size_t \<Rightarrow> size_t \<Rightarrow> size_t" where
  "compute_index hash capacity = hash AND (capacity - 1)"

text \<open>
  The loop \<^verbatim>\<open>for (int i = 1; i < digits; i <<= 1) min_capacity |= min_capacity >> i\<close>
  of \<^verbatim>\<open>compute_closest_capacity\<close>, with \<^verbatim>\<open>digits = 64\<close>; it is entered with \<open>i = 1\<close>.
\<close>

function smear_loop :: "nat \<Rightarrow> size_t \<Rightarrow> size_t" where
  "smear_loop i min_capacity =
     (if 0 < i \<and> i < 64 then smear_loop (2 * i) (min_capacity OR drop_bit i min_capacity)
      else min_capacity)"
  by pat_completeness auto
termination
  by (relation "measure (\<lambda>(i, c). 64 - i)") auto

declare smear_loop.simps [simp del]

definition highest_capacity :: size_t where
  "highest_capacity = push_bit 63 1"

text \<open>
  The first argument says whether the build defines \<^verbatim>\<open>NDEBUG\<close>: with it the assertion is
  compiled out and the statement after it, \<^verbatim>\<open>return highest_capacity\<close>, runs.
\<close>

definition compute_closest_capacity :: "bool \<Rightarrow> size_t \<Rightarrow> error + size_t" where
  "compute_closest_capacity ndebug min_capacity =
     (if min_capacity > highest_capacity
      then (if ndebug then Inr highest_capacity else Inl Assertion_failed)
      else Inr (smear_loop 1 (min_capacity - 1) + 1))"

definition minimum_capacity :: size_t where
  "minimum_capacity = 8"

section \<open>Hash table (\<^verbatim>\<open>hash_map.h\<close>)\<close>

text \<open>
  The template parameters and the build: the hasher, the value \<^verbatim>\<open>T()\<close>, the key
  \<^verbatim>\<open>key_type()\<close>, the largest vector the allocator provides and \<^verbatim>\<open>NDEBUG\<close>.
  \<^verbatim>\<open>KeyEqual\<close> is \<^verbatim>\<open>std::equal_to\<close>, that is equality.
\<close>

record ('k, 'v) params =
  hasher :: "'k \<Rightarrow> size_t"
  key_init :: 'k
  mapped_init :: 'v
  max_size :: nat
  ndebug :: bool

record ('k, 'v) hash_map =
  m_empty_key :: 'k
  m_buckets :: "('k \<times> 'v) list"
  m_size :: size_t

text \<open>
  A call returns \<open>None\<close> when it does not return (the fuel bounds every probe loop and the
  depth of the recursion between \<^verbatim>\<open>emplace_impl\<close> and \<^verbatim>\<open>rehash\<close>), \<open>Some (Inl e)\<close>
  when it fails with \<open>e\<close> and \<open>Some (Inr x)\<close> when it returns \<open>x\<close>.
\<close>

type_synonym 'a result = "(error + 'a) option"

definition bind_result :: "'a result \<Rightarrow> ('a \<Rightarrow> 'b result) \<Rightarrow> 'b result" where
  "bind_result m f = (case m of None \<Rightarrow> None | Some (Inl e) \<Rightarrow> Some (Inl e) | Some (Inr x) \<Rightarrow> f x)"

definition bucket_count :: "('k, 'v) hash_map \<Rightarrow> size_t" where
  "bucket_count t = word_of_nat (length (m_buckets t))"

definition size_hm :: "('k, 'v) hash_map \<Rightarrow> size_t" where
  "size_hm t = m_size t"

definition max_load_factor :: "('k, 'v) hash_map \<Rightarrow> real" where
  "max_load_factor t = DEFAULT_MAX_LOAD_FACTOR"

definition end_it :: "('k, 'v) hash_map \<Rightarrow> size_t" where
  "end_it t = word_of_nat (length (m_buckets t))"

definition key_to_idx :: "('k, 'v) params \<Rightarrow> ('k, 'v) hash_map \<Rightarrow> 'k \<Rightarrow> size_t" where
  "key_to_idx env t key = compute_index (hasher env key) (bucket_count t)"

definition probe_next :: "('k, 'v) hash_map \<Rightarrow> size_t \<Rightarrow> size_t" where
  "probe_next t idx = compute_index (idx + 1) (bucket_count t)"

definition diff :: "('k, 'v) hash_map \<Rightarrow> size_t \<Rightarrow> size_t \<Rightarrow> size_t" where
  "diff t a b = compute_index (bucket_count t + (a - b)) (bucket_count t)"

text \<open>The constructor \<^verbatim>\<open>hash_map(bucket_count, empty_key, alloc)\<close>.\<close>

definition hash_map_ctor ::
  "('k, 'v) params \<Rightarrow> size_t \<Rightarrow> 'k \<Rightarrow> error + ('k, 'v) hash_map" where
  "hash_map_ctor env n_buckets empty_key =
     (case compute_closest_capacity (ndebug env) n_buckets of
        Inl e \<Rightarrow> Inl e
      | Inr count \<Rightarrow>
          if max_size env < unat count then Inl Length_error
          else Inr \<lparr>m_empty_key = empty_key,
                    m_buckets = replicate (unat count) (empty_key, mapped_init env),
                    m_size = 0\<rparr>)"

definition hash_map_default :: "('k, 'v) params \<Rightarrow> error + ('k, 'v) hash_map" where
  "hash_map_default env = hash_map_ctor env minimum_capacity (key_init env)"

definition hash_map_sized :: "('k, 'v) params \<Rightarrow> size_t \<Rightarrow> error + ('k, 'v) hash_map" where
  "hash_map_sized env n_buckets = hash_map_ctor env n_buckets (key_init env)"

text \<open>The probe loop of \<^verbatim>\<open>find_impl\<close>; \<^verbatim>\<open>end()\<close> is the iterator at \<^verbatim>\<open>m_buckets.size()\<close>.\<close>

fun find_probe :: "nat \<Rightarrow> ('k, 'v) hash_map \<Rightarrow> 'k \<Rightarrow> size_t \<Rightarrow> size_t result" where
  "find_probe 0 t key idx = None"
| "find_probe (Suc fuel) t key idx =
     (if length (m_buckets t) \<le> unat idx then Some (Inl Out_of_bounds)
      else if fst (m_buckets t ! unat idx) = key then Some (Inr idx)
      else if fst (m_buckets t ! unat idx) = m_empty_key t then Some (Inr (end_it t))
      else find_probe fuel t key (probe_next t idx))"

definition find_impl ::
  "('k, 'v) params \<Rightarrow> nat \<Rightarrow> ('k, 'v) hash_map \<Rightarrow> 'k \<Rightarrow> size_t result" where
  "find_impl env fuel t key =
     (if \<not> ndebug env \<and> m_empty_key t = key then Some (Inl Assertion_failed)
      else find_probe fuel t key (key_to_idx env t key))"

definition count_impl ::
  "('k, 'v) params \<Rightarrow> nat \<Rightarrow> ('k, 'v) hash_map \<Rightarrow> 'k \<Rightarrow> size_t result" where
  "count_impl env fuel t key =
     bind_result (find_impl env fuel t key) (\<lambda>it. Some (Inr (if it = end_it t then 0 else 1)))"

definition at_impl ::
  "('k, 'v) params \<Rightarrow> nat \<Rightarrow> ('k, 'v) hash_map \<Rightarrow> 'k \<Rightarrow> 'v result" where
  "at_impl env fuel t key =
     bind_result (find_impl env fuel t key)
       (\<lambda>it. if it \<noteq> end_it t then Some (Inr (snd (m_buckets t ! unat it)))
             else Some (Inl Key_not_found))"

text \<open>The probe loop of \<^verbatim>\<open>emplace_impl\<close>, entered after \<^verbatim>\<open>check_for_rehash\<close>.\<close>

fun emplace_probe ::
  "nat \<Rightarrow> ('k, 'v) hash_map \<Rightarrow> 'k \<Rightarrow> 'v \<Rightarrow> size_t \<Rightarrow> (('k, 'v) hash_map \<times> size_t \<times> bool) result" where
  "emplace_probe 0 t key val idx = None"
| "emplace_probe (Suc fuel) t key val idx =
     (if length (m_buckets t) \<le> unat idx then Some (Inl Out_of_bounds)
      else if fst (m_buckets t ! unat idx) = m_empty_key t
      then Some (Inr (t\<lparr>m_buckets := (m_buckets t)[unat idx := (key, val)],
                        m_size := m_size t + 1\<rparr>, idx, True))
      else if fst (m_buckets t ! unat idx) = key then Some (Inr (t, idx, False))
      else emplace_probe fuel t key val (probe_next t idx))"

text \<open>
  \<^verbatim>\<open>emplace_impl\<close>, \<^verbatim>\<open>check_for_rehash\<close>, \<^verbatim>\<open>rehash\<close> and the constructor
  \<^verbatim>\<open>hash_map(const hash_map&, size_type)\<close> call each other; \<open>insert_range\<close> is the loop
  of that constructor over the occupied slots of the other table, in index order.
  \<^verbatim>\<open>swap\<close> at the end of \<^verbatim>\<open>rehash\<close> makes the new table the current one.
\<close>

function emplace_impl ::
    "('k, 'v) params \<Rightarrow> nat \<Rightarrow> ('k, 'v) hash_map \<Rightarrow> 'k \<Rightarrow> 'v \<Rightarrow> (('k, 'v) hash_map \<times> size_t \<times> bool) result"
  and check_for_rehash ::
    "('k, 'v) params \<Rightarrow> nat \<Rightarrow> ('k, 'v) hash_map \<Rightarrow> ('k, 'v) hash_map result"
  and rehash ::
    "('k, 'v) params \<Rightarrow> nat \<Rightarrow> ('k, 'v) hash_map \<Rightarrow> size_t \<Rightarrow> ('k, 'v) hash_map result"
  and hash_map_copy ::
    "('k, 'v) params \<Rightarrow> nat \<Rightarrow> ('k, 'v) hash_map \<Rightarrow> size_t \<Rightarrow> ('k, 'v) hash_map result"
  and insert_range ::
    "('k, 'v) params \<Rightarrow> nat \<Rightarrow> ('k, 'v) hash_map \<Rightarrow> ('k \<times> 'v) list \<Rightarrow> ('k, 'v) hash_map result"
where
  "emplace_impl env fuel t key val =
     (if \<not> ndebug env \<and> m_empty_key t = key then Some (Inl Assertion_failed)
      else bind_result (check_for_rehash env fuel t)
             (\<lambda>t'. emplace_probe fuel t' key val (key_to_idx env t' key)))"
| "check_for_rehash env fuel t =
     (if float_of_size_t (size_hm t + 1) > float_of_size_t (bucket_count t) * max_load_factor t
      then rehash env fuel t (push_bit 2 (bucket_count t))
      else Some (Inr t))"
| "rehash env 0 t count = None"
| "rehash env (Suc fuel) t count =
     (case size_t_of_float (float_of_size_t (size_hm t) / max_load_factor t) of
        Inl e \<Rightarrow> Some (Inl e)
      | Inr by_load \<Rightarrow>
          (case compute_closest_capacity (ndebug env)
                  (max (max minimum_capacity count) by_load) of
             Inl e \<Rightarrow> Some (Inl e)
           | Inr count' \<Rightarrow> hash_map_copy env fuel t count'))"
| "hash_map_copy env fuel other n_buckets =
     (case hash_map_ctor env n_buckets (m_empty_key other) of
        Inl e \<Rightarrow> Some (Inl e)
      | Inr t \<Rightarrow>
          insert_range env fuel t
            (filter (\<lambda>b. fst b \<noteq> m_empty_key other) (m_buckets other)))"
| "insert_range env fuel t [] = Some (Inr t)"
| "insert_range env fuel t (entry # rest) =
     bind_result (emplace_impl env fuel t (fst entry) (snd entry))
       (\<lambda>r. insert_range env fuel (fst r) rest)"

  by pat_completeness auto
termination
  by (relation "measures
       [\<lambda>x. case x of
          Inl (Inl (env, fuel, t, key, val)) \<Rightarrow> fuel
        | Inl (Inr (env, fuel, t)) \<Rightarrow> fuel
        | Inr (Inl (env, fuel, t, c)) \<Rightarrow> fuel
        | Inr (Inr (Inl (env, fuel, t, c))) \<Rightarrow> fuel
        | Inr (Inr (Inr (env, fuel, t, xs))) \<Rightarrow> fuel,
        \<lambda>x. case x of
          Inl (Inl (env, fuel, t, key, val)) \<Rightarrow> 2
        | Inl (Inr (env, fuel, t)) \<Rightarrow> 1
        | Inr (Inl (env, fuel, t, c)) \<Rightarrow> 0
        | Inr (Inr (Inl (env, fuel, t, c))) \<Rightarrow> 4
        | Inr (Inr (Inr (env, fuel, t, xs))) \<Rightarrow> 3,
        \<lambda>x. case x of
          Inr (Inr (Inr (env, fuel, t, xs))) \<Rightarrow> length xs
        | _ \<Rightarrow> 0]") auto

declare emplace_impl.simps [simp del] check_for_rehash.simps [simp del]
  rehash.simps [simp del] hash_map_copy.simps [simp del]

definition reserve ::
  "('k, 'v) params \<Rightarrow> nat \<Rightarrow> ('k, 'v) hash_map \<Rightarrow> size_t \<Rightarrow> ('k, 'v) hash_map result" where
  "reserve env fuel t count =
     (case size_t_of_float (of_int \<lceil>float_of_size_t count / max_load_factor t\<rceil>) of
        Inl e \<Rightarrow> Some (Inl e)
      | Inr count' \<Rightarrow> rehash env fuel t count')"

text \<open>
  The loop of \<^verbatim>\<open>erase_impl(iterator)\<close>: \<open>bucket\<close> is the slot being vacated,
  \<open>idx\<close> the slot being examined.
\<close>

fun erase_shift ::
  "('k, 'v) params \<Rightarrow> nat \<Rightarrow> ('k, 'v) hash_map \<Rightarrow> size_t \<Rightarrow> size_t \<Rightarrow> ('k, 'v) hash_map result" where
  "erase_shift env 0 t bucket idx = None"
| "erase_shift env (Suc fuel) t bucket idx =
     (if length (m_buckets t) \<le> unat idx then Some (Inl Out_of_bounds)
      else if fst (m_buckets t ! unat idx) = m_empty_key t
      then (if length (m_buckets t) \<le> unat bucket then Some (Inl Out_of_bounds)
            else Some (Inr (t\<lparr>m_buckets := (m_buckets t)
                                 [unat bucket := (m_empty_key t, snd (m_buckets t ! unat bucket))],
                               m_size := m_size t - 1\<rparr>)))
      else let ideal = key_to_idx env t (fst (m_buckets t ! unat idx))
           in if diff t bucket ideal < diff t idx ideal
              then (if length (m_buckets t) \<le> unat bucket then Some (Inl Out_of_bounds)
                    else erase_shift env fuel
                           (t\<lparr>m_buckets := (m_buckets t)[unat bucket := m_buckets t ! unat idx]\<rparr>)
                           idx (probe_next t idx))
              else erase_shift env fuel t bucket (probe_next t idx))"

definition erase_impl_it ::
  "('k, 'v) params \<Rightarrow> nat \<Rightarrow> ('k, 'v) hash_map \<Rightarrow> size_t \<Rightarrow> ('k, 'v) hash_map result" where
  "erase_impl_it env fuel t it = erase_shift env fuel t it (probe_next t it)"

definition erase_impl_key ::
  "('k, 'v) params \<Rightarrow> nat \<Rightarrow> ('k, 'v) hash_map \<Rightarrow> 'k \<Rightarrow> (('k, 'v) hash_map \<times> size_t) result" where
  "erase_impl_key env fuel t key =
     bind_result (find_impl env fuel t key)
       (\<lambda>it. if it \<noteq> end_it t
             then bind_result (erase_impl_it env fuel t it) (\<lambda>t'. Some (Inr (t', 1)))
             else Some (Inr (t, 0)))"

definition clear :: "('k, 'v) hash_map \<Rightarrow> ('k, 'v) hash_map" where
  "clear t =
     t\<lparr>m_buckets := map (\<lambda>b. if fst b \<noteq> m_empty_key t then (m_empty_key t, snd b) else b)
                         (m_buckets t),
       m_size := 0\<rparr>"

definition swap ::
  "('k, 'v) hash_map \<Rightarrow> ('k, 'v) hash_map \<Rightarrow> ('k, 'v) hash_map \<times> ('k, 'v) hash_map" where
  "swap t other =
     (t\<lparr>m_buckets := m_buckets other, m_size := m_size other, m_empty_key := m_empty_key other\<rparr>,
      other\<lparr>m_buckets := m_buckets t, m_size := m_size t, m_empty_key := m_empty_key t\<rparr>)"

text \<open>The public members that forward to the implementations above.\<close>

definition insert_hm ::
  "('k, 'v) params \<Rightarrow> nat \<Rightarrow> ('k, 'v) hash_map \<Rightarrow> 'k \<times> 'v \<Rightarrow> (('k, 'v) hash_map \<times> size_t \<times> bool) result" where
  "insert_hm env fuel t entry = emplace_impl env fuel t (fst entry) (snd entry)"

definition subscript ::
  "('k, 'v) params \<Rightarrow> nat \<Rightarrow> ('k, 'v) hash_map \<Rightarrow> 'k \<Rightarrow> (('k, 'v) hash_map \<times> size_t \<times> bool) result" where
  "subscript env fuel t key = emplace_impl env fuel t key (mapped_init env)"

definition erase :: "('k, 'v) params \<Rightarrow> nat \<Rightarrow> ('k, 'v) hash_map \<Rightarrow> 'k \<Rightarrow> (('k, 'v) hash_map \<times> size_t) result" where
  "erase env fuel t key = erase_impl_key env fuel t key"

definition find_hm :: "('k, 'v) params \<Rightarrow> nat \<Rightarrow> ('k, 'v) hash_map \<Rightarrow> 'k \<Rightarrow> size_t result" where
  "find_hm env fuel t key = find_impl env fuel t key"

definition count_hm :: "('k, 'v) params \<Rightarrow> nat \<Rightarrow> ('k, 'v) hash_map \<Rightarrow> 'k \<Rightarrow> size_t result" where
  "count_hm env fuel t key = count_impl env fuel t key"

definition at_hm :: "('k, 'v) params \<Rightarrow> nat \<Rightarrow> ('k, 'v) hash_map \<Rightarrow> 'k \<Rightarrow> 'v result" where
  "at_hm env fuel t key = at_impl env fuel t key"

section \<open>Specification predicates\<close>

text \<open>
  After the shifts by 1, 2, 4, ... the word has a bit set exactly where the
  argument has a bit set at that place or at one of the \<open>k - 1\<close> places above.
\<close>

definition smeared :: "size_t \<Rightarrow> nat \<Rightarrow> size_t \<Rightarrow> bool" where
  "smeared x k c = (\<forall>j. bit c j \<longleftrightarrow> (\<exists>i. j \<le> i \<and> i < j + k \<and> bit x i))"


text \<open>
  The number of steps from slot \<open>a\<close> forward to slot \<open>b\<close> on a ring of \<open>n\<close> slots;
  \<^verbatim>\<open>diff(a, b)\<close> of the source computes \<open>cdist n b a\<close>.
\<close>

definition cdist :: "nat \<Rightarrow> nat \<Rightarrow> nat \<Rightarrow> nat" where
  "cdist n a b = (b + n - a) mod n"

definition occupied :: "('k, 'v) hash_map \<Rightarrow> nat \<Rightarrow> bool" where
  "occupied t i = (fst (m_buckets t ! i) \<noteq> m_empty_key t)"

definition home :: "('k, 'v) params \<Rightarrow> ('k, 'v) hash_map \<Rightarrow> 'k \<Rightarrow> nat" where
  "home env t key = unat (key_to_idx env t key)"

definition occupied_slots :: "('k, 'v) hash_map \<Rightarrow> ('k \<times> 'v) list" where
  "occupied_slots t = filter (\<lambda>b. fst b \<noteq> m_empty_key t) (m_buckets t)"

text \<open>The abstract content of a table: the key/value pairs of its occupied slots.\<close>

definition entries :: "('k, 'v) hash_map \<Rightarrow> ('k \<times> 'v) set" where
  "entries t = set (occupied_slots t)"

text \<open>
  Probe-sequence contiguity: every slot from the home index of an occupied slot's key up to
  that slot is occupied.
\<close>

definition contiguous :: "('k, 'v) params \<Rightarrow> ('k, 'v) hash_map \<Rightarrow> bool" where
  "contiguous env t =
     (\<forall>i<length (m_buckets t). occupied t i \<longrightarrow>
        (\<forall>d<cdist (length (m_buckets t)) (home env t (fst (m_buckets t ! i))) i.
           occupied t ((home env t (fst (m_buckets t ! i)) + d) mod length (m_buckets t))))"

definition unique_keys :: "('k, 'v) hash_map \<Rightarrow> bool" where
  "unique_keys t =
     (\<forall>i<length (m_buckets t). \<forall>j<length (m_buckets t).
        occupied t i \<longrightarrow> fst (m_buckets t ! i) = fst (m_buckets t ! j) \<longrightarrow> i = j)"

text \<open>
  The representation invariant.  The capacity is 0 or a power of two; \<^verbatim>\<open>m_size\<close> counts
  the occupied slots; the load passes the growth check of \<^verbatim>\<open>check_for_rehash\<close>, which
  compares after rounding to \<^verbatim>\<open>float\<close>; keys are unique; probe sequences are contiguous.
\<close>

definition inv :: "('k, 'v) params \<Rightarrow> ('k, 'v) hash_map \<Rightarrow> bool" where
  "inv env t =
     ((length (m_buckets t) = 0 \<or> (\<exists>m\<le>63. length (m_buckets t) = 2 ^ m))
      \<and> length (m_buckets t) \<le> max_size env
      \<and> unat (m_size t) = length (occupied_slots t)
      \<and> 2 * round_to_float (length (occupied_slots t)) \<le> length (m_buckets t)
      \<and> unique_keys t
      \<and> contiguous env t)"

text \<open>The capacity that \<^verbatim>\<open>rehash(count)\<close> asks the growth policy for.\<close>

definition requested :: "('k, 'v) hash_map \<Rightarrow> size_t \<Rightarrow> size_t" where
  "requested t count =
     max (max minimum_capacity count) (word_of_nat (2 * round_to_float (length (occupied_slots t))))"


text \<open>
  The invariant of the loop of \<^verbatim>\<open>erase_impl\<close>, with \<open>b\<close> the slot being vacated and
  \<open>j\<close> the slot being examined: the slots between them are occupied; the probe sequence
  of every other key is occupied except possibly at \<open>b\<close>; a key whose probe sequence crosses
  \<open>b\<close> sits at \<open>j\<close> or later; and the keys outside \<open>b\<close> are unique.
\<close>

definition slot_key :: "('k, 'v) hash_map \<Rightarrow> nat \<Rightarrow> 'k" where
  "slot_key t i = fst (m_buckets t ! i)"

definition erase_inv :: "('k, 'v) params \<Rightarrow> ('k, 'v) hash_map \<Rightarrow> nat \<Rightarrow> nat \<Rightarrow> bool" where
  "erase_inv env t b j =
     (b < length (m_buckets t) \<and> j < length (m_buckets t) \<and> b \<noteq> j
      \<and> (\<forall>d. 0 < d \<and> d < cdist (length (m_buckets t)) b j \<longrightarrow>
             occupied t ((b + d) mod length (m_buckets t)))
      \<and> (\<forall>p<length (m_buckets t). p \<noteq> b \<and> occupied t p \<longrightarrow>
             (\<forall>d<cdist (length (m_buckets t)) (home env t (slot_key t p)) p.
                (home env t (slot_key t p) + d) mod length (m_buckets t) = b
                \<or> occupied t ((home env t (slot_key t p) + d) mod length (m_buckets t))))
      \<and> (\<forall>p<length (m_buckets t). p \<noteq> b \<and> occupied t p
             \<and> cdist (length (m_buckets t)) (home env t (slot_key t p)) b
                 < cdist (length (m_buckets t)) (home env t (slot_key t p)) p \<longrightarrow>
             cdist (length (m_buckets t)) b j \<le> cdist (length (m_buckets t)) b p)
      \<and> (\<forall>p<length (m_buckets t). \<forall>q<length (m_buckets t).
             p \<noteq> b \<and> q \<noteq> b \<and> occupied t p \<and> slot_key t p = slot_key t q \<longrightarrow> p = q))"

text \<open>The entries and the number of occupied slots outside slot \<open>b\<close>.\<close>

definition others :: "('k, 'v) hash_map \<Rightarrow> nat \<Rightarrow> ('k \<times> 'v) set" where
  "others t b = {m_buckets t ! i | i. i < length (m_buckets t) \<and> i \<noteq> b \<and> occupied t i}"

definition others_count :: "('k, 'v) hash_map \<Rightarrow> nat \<Rightarrow> nat" where
  "others_count t b = card {i. i < length (m_buckets t) \<and> i \<noteq> b \<and> occupied t i}"

section \<open>Concrete tables\<close>

text \<open>
  Keys and values are natural numbers, the hash of a key is the key itself, and the empty
  key is 0.  \<open>table_w\<close> is the table of eight slots after inserting the keys 1, 9 and
  17, which share the home slot 1.
\<close>

definition env_w :: "(nat, nat) params" where
  "env_w = \<lparr>hasher = word_of_nat, key_init = 0, mapped_init = 0, max_size = 1024, ndebug = False\<rparr>"

definition table_w :: "(nat, nat) hash_map" where
  "table_w = \<lparr>m_empty_key = 0,
      m_buckets = [(0, 0), (1, 10), (9, 90), (17, 170), (0, 0), (0, 0), (0, 0), (0, 0)],
      m_size = 3\<rparr>"

text \<open>
  \<open>table_w1\<close> is \<open>table_w\<close> after inserting the key 25, and \<open>table_w2\<close> is \<open>table_w1\<close>
  after erasing 9, inserting 33, \<^verbatim>\<open>rehash(16)\<close> and inserting 25 again.
\<close>

definition table_w1 :: "(nat, nat) hash_map" where
  "table_w1 = \<lparr>m_empty_key = 0,
      m_buckets = [(0, 0), (1, 10), (9, 90), (17, 170), (25, 250), (0, 0), (0, 0), (0, 0)],
      m_size = 4\<rparr>"

definition table_w2 :: "(nat, nat) hash_map" where
  "table_w2 = \<lparr>m_empty_key = 0,
      m_buckets = [(0, 0), (1, 10), (17, 170), (33, 330), (0, 0), (0, 0), (0, 0), (0, 0),
                   (0, 0), (25, 250), (0, 0), (0, 0), (0, 0), (0, 0), (0, 0), (0, 0)],
      m_size = 4\<rparr>"

text \<open>
  \<open>table_w3\<close> is \<open>table_w\<close> after \<^verbatim>\<open>rehash(16)\<close>, and \<open>table_w4\<close> is \<open>table_w\<close> after
  \<^verbatim>\<open>reserve(16)\<close>.
\<close>

definition table_w3 :: "(nat, nat) hash_map" where
  "table_w3 = \<lparr>m_empty_key = 0,
      m_buckets = [(0, 0), (1, 10), (17, 170), (0, 0), (0, 0), (0, 0), (0, 0), (0, 0),
                   (0, 0), (9, 90), (0, 0), (0, 0), (0, 0), (0, 0), (0, 0), (0, 0)],
      m_size = 3\<rparr>"

definition table_w4 :: "(nat, nat) hash_map" where
  "table_w4 = \<lparr>m_empty_key = 0,
      m_buckets = [(0, 0), (1, 10), (0, 0), (0, 0), (0, 0), (0, 0), (0, 0), (0, 0),
                   (0, 0), (9, 90), (0, 0), (0, 0), (0, 0), (0, 0), (0, 0), (0, 0),
                   (0, 0), (17, 170), (0, 0), (0, 0), (0, 0), (0, 0), (0, 0), (0, 0),
                   (0, 0), (0, 0), (0, 0), (0, 0), (0, 0), (0, 0), (0, 0), (0, 0)],
      m_size = 3\<rparr>"

text \<open>
  A program with the same hash and empty key whose allocator provides \<open>2 ^ 60\<close> buckets.
  \<open>table_filled k\<close> is the table built by \<^verbatim>\<open>hash_map(1 << 25, 0)\<close> after the insertion
  of the keys 1 to \<open>k\<close>, each with the value 0, and \<open>table_big\<close> is the one that holds
  \<open>2 ^ 24\<close> keys: it is exactly half full.
\<close>

definition env_big :: "(nat, nat) params" where
  "env_big = \<lparr>hasher = word_of_nat, key_init = 0, mapped_init = 0, max_size = 2 ^ 60,
     ndebug = False\<rparr>"

definition table_filled :: "nat \<Rightarrow> (nat, nat) hash_map" where
  "table_filled k = \<lparr>m_empty_key = 0,
      m_buckets = map (\<lambda>i. if 1 \<le> i \<and> i \<le> k then (i, 0) else (0, 0)) [0..<2 ^ 25],
      m_size = word_of_nat k\<rparr>"

definition table_big :: "(nat, nat) hash_map" where
  "table_big = table_filled (2 ^ 24)"

section \<open>Reachable tables\<close>

text \<open>
  The tables a program can hold: built by a constructor and changed by the public members,
  called within their contract (a key is never the empty key, an erased iterator points to
  an entry).  \<^verbatim>\<open>insert\<close>, \<^verbatim>\<open>emplace\<close> and \<^verbatim>\<open>operator[]\<close> are calls of \<^verbatim>\<open>emplace_impl\<close>.
\<close>

inductive reachable :: "('k, 'v) params \<Rightarrow> ('k, 'v) hash_map \<Rightarrow> bool" for env where
  ctor: "hash_map_ctor env n_buckets empty_key = Inr t \<Longrightarrow> reachable env t"
| copy: "reachable env t \<Longrightarrow> hash_map_copy env fuel t n_buckets = Some (Inr t') \<Longrightarrow>
         reachable env t'"
| emplace: "reachable env t \<Longrightarrow> key \<noteq> m_empty_key t \<Longrightarrow>
         emplace_impl env fuel t key val = Some (Inr (t', it, inserted)) \<Longrightarrow> reachable env t'"
| erase_key: "reachable env t \<Longrightarrow> key \<noteq> m_empty_key t \<Longrightarrow>
         erase_impl_key env fuel t key = Some (Inr (t', n)) \<Longrightarrow> reachable env t'"
| erase_it: "reachable env t \<Longrightarrow> unat it < length (m_buckets t) \<Longrightarrow> occupied t (unat it) \<Longrightarrow>
         erase_impl_it env fuel t it = Some (Inr t') \<Longrightarrow> reachable env t'"
| clear: "reachable env t \<Longrightarrow> reachable env (clear t)"
| rehash: "reachable env t \<Longrightarrow> rehash env fuel t count = Some (Inr t') \<Longrightarrow> reachable env t'"
| reserve: "reachable env t \<Longrightarrow> reserve env fuel t count = Some (Inr t') \<Longrightarrow> reachable env t'"
| swap: "reachable env t \<Longrightarrow> reachable env other \<Longrightarrow> reachable env (fst (swap t other))"


text \<open>
  Sequences of calls of \<^verbatim>\<open>insert\<close>, \<^verbatim>\<open>erase\<close>, \<^verbatim>\<open>rehash\<close> and \<^verbatim>\<open>reserve\<close>, each on the
  table the previous call left; an exception ends the sequence.  \<open>allowed ek key\<close> holds of
  the calls that respect the contract for the empty key \<open>ek\<close> and do not erase \<open>key\<close>.
\<close>

datatype ('k, 'v) operation = Insert 'k 'v | Erase 'k | Rehash size_t | Reserve size_t

fun apply_op ::
  "('k, 'v) params \<Rightarrow> nat \<Rightarrow> ('k, 'v) hash_map \<Rightarrow> ('k, 'v) operation \<Rightarrow> ('k, 'v) hash_map result" where
  "apply_op env fuel t (Insert k v) =
     bind_result (insert_hm env fuel t (k, v)) (\<lambda>r. Some (Inr (fst r)))"
| "apply_op env fuel t (Erase k) =
     bind_result (erase env fuel t k) (\<lambda>r. Some (Inr (fst r)))"
| "apply_op env fuel t (Rehash count) = rehash env fuel t count"
| "apply_op env fuel t (Reserve count) = reserve env fuel t count"

fun run_ops ::
  "('k, 'v) params \<Rightarrow> nat \<Rightarrow> ('k, 'v) hash_map \<Rightarrow> ('k, 'v) operation list \<Rightarrow> ('k, 'v) hash_map result" where
  "run_ops env fuel t [] = Some (Inr t)"
| "run_ops env fuel t (op # ops) =
     bind_result (apply_op env fuel t op) (\<lambda>t'. run_ops env fuel t' ops)"

fun allowed :: "'k \<Rightarrow> 'k \<Rightarrow> ('k, 'v) operation \<Rightarrow> bool" where
  "allowed ek key (Insert k v) = (k \<noteq> ek)"
| "allowed ek key (Erase k) = (k \<noteq> ek \<and> k \<noteq> key)"
| "allowed ek key (Rehash count) = True"
| "allowed ek key (Reserve count) = True"

section \<open>The growth policy rounds up to a power of two\<close>

lemma smeared_init: "smeared x 1 x"
  unfolding smeared_def
proof
  fix j :: nat
  show "bit x j \<longleftrightarrow> (\<exists>i. j \<le> i \<and> i < j + 1 \<and> bit x i)"
  proof
    assume "bit x j"
    then have "j \<le> j \<and> j < j + 1 \<and> bit x j" by simp
    then show "\<exists>i. j \<le> i \<and> i < j + 1 \<and> bit x i" by (rule exI)
  next
    assume "\<exists>i. j \<le> i \<and> i < j + 1 \<and> bit x i"
    then obtain i where "j \<le> i" "i < j + 1" "bit x i" by blast
    moreover from this have "i = j" by simp
    ultimately show "bit x j" by simp
  qed
qed

lemma smeared_step:
  assumes "smeared x k c"
  shows "smeared x (2 * k) (c OR drop_bit k c)"
  unfolding smeared_def
proof
  fix j
  have a: "bit c j \<longleftrightarrow> (\<exists>i. j \<le> i \<and> i < j + k \<and> bit x i)"
    using assms by (simp add: smeared_def)
  have b: "bit c (k + j) \<longleftrightarrow> (\<exists>i. k + j \<le> i \<and> i < k + j + k \<and> bit x i)"
    using assms by (simp add: smeared_def)
  have "bit (c OR drop_bit k c) j \<longleftrightarrow> bit c j \<or> bit c (k + j)"
    by (simp add: bit_or_iff bit_drop_bit_eq)
  also have "\<dots> \<longleftrightarrow> (\<exists>i. j \<le> i \<and> i < j + 2 * k \<and> bit x i)"
    unfolding a b
  proof
    assume "(\<exists>i. j \<le> i \<and> i < j + k \<and> bit x i) \<or> (\<exists>i. k + j \<le> i \<and> i < k + j + k \<and> bit x i)"
    then show "\<exists>i. j \<le> i \<and> i < j + 2 * k \<and> bit x i"
      by (elim disjE exE) (rule_tac x = i in exI, simp)+
  next
    assume "\<exists>i. j \<le> i \<and> i < j + 2 * k \<and> bit x i"
    then obtain i where i: "j \<le> i" "i < j + 2 * k" "bit x i" by blast
    show "(\<exists>i. j \<le> i \<and> i < j + k \<and> bit x i) \<or> (\<exists>i. k + j \<le> i \<and> i < k + j + k \<and> bit x i)"
    proof (cases "i < j + k")
      case True
      with i show ?thesis by blast
    next
      case False
      with i have "k + j \<le> i \<and> i < k + j + k \<and> bit x i" by simp
      then show ?thesis by blast
    qed
  qed
  finally show "bit (c OR drop_bit k c) j \<longleftrightarrow> (\<exists>i. j \<le> i \<and> i < j + 2 * k \<and> bit x i)" .
qed

lemma smear_loop_unfold:
  "smear_loop 1 x =
     (let c1 = x OR drop_bit 1 x; c2 = c1 OR drop_bit 2 c1; c3 = c2 OR drop_bit 4 c2;
          c4 = c3 OR drop_bit 8 c3; c5 = c4 OR drop_bit 16 c4
      in c5 OR drop_bit 32 c5)"
  by (simp add: smear_loop.simps Let_def)

lemma smear_loop_smeared: "smeared x 64 (smear_loop 1 x)"
proof -
  note s = smeared_step
  have "smeared x 64 (let c1 = x OR drop_bit 1 x; c2 = c1 OR drop_bit 2 c1;
      c3 = c2 OR drop_bit 4 c2; c4 = c3 OR drop_bit 8 c3; c5 = c4 OR drop_bit 16 c4
      in c5 OR drop_bit 32 c5)"
    unfolding Let_def
    using s [OF s [OF s [OF s [OF s [OF s [OF smeared_init [of x]]]]]]] by simp
  then show ?thesis by (simp only: smear_loop_unfold)
qed

lemma bit_size_t_lower: "bit (x :: size_t) i \<Longrightarrow> 2 ^ i \<le> unat x"
proof -
  assume "bit x i"
  then have "bit (unat x) i" by (simp add: bit_unsigned_iff)
  then have "odd (unat x div 2 ^ i)" by (simp add: bit_nat_def)
  then have "unat x div 2 ^ i \<noteq> 0" by (intro notI) simp
  then have "\<not> unat x < 2 ^ i" by (simp add: div_eq_0_iff)
  then show ?thesis by simp
qed

lemma bit_size_t_top:
  assumes "2 ^ k \<le> unat (x :: size_t)" and "unat x < 2 ^ Suc k"
  shows "bit x k"
proof -
  have "unat x div 2 ^ k = 1"
    using assms by (intro div_nat_eqI) simp_all
  then have "bit (unat x) k" by (simp add: bit_nat_def)
  then show ?thesis by (simp add: bit_unsigned_iff)
qed

lemma smear_loop_mask:
  assumes lt: "unat x < 2 ^ m" and ge: "m = 0 \<or> 2 ^ (m - 1) \<le> unat x" and m: "m \<le> 64"
  shows "smear_loop 1 x = mask m"
proof (rule bit_eqI)
  fix j
  have w: "bit (smear_loop 1 x) j \<longleftrightarrow> (\<exists>i. j \<le> i \<and> i < j + 64 \<and> bit x i)"
    using smear_loop_smeared [of x] by (simp add: smeared_def)
  have up: "i < m" if "bit x i" for i
  proof -
    have "(2::nat) ^ i \<le> unat x" using that by (rule bit_size_t_lower)
    then have "(2::nat) ^ i < 2 ^ m" using lt by (rule le_less_trans)
    then show ?thesis by simp
  qed
  have "(\<exists>i. j \<le> i \<and> i < j + 64 \<and> bit x i) \<longleftrightarrow> j < m"
  proof
    assume "\<exists>i. j \<le> i \<and> i < j + 64 \<and> bit x i"
    then obtain i where "j \<le> i" "bit x i" by blast
    with up [of i] show "j < m" by simp
  next
    assume jm: "j < m"
    then obtain k where k: "m = Suc k" by (cases m) simp_all
    with ge lt have "bit x k" by (intro bit_size_t_top) simp_all
    moreover have "j \<le> k" "k < j + 64" using jm k m by simp_all
    ultimately show "\<exists>i. j \<le> i \<and> i < j + 64 \<and> bit x i" by blast
  qed
  with w show "bit (smear_loop 1 x) j \<longleftrightarrow> bit (mask m :: size_t) j"
    using m by (auto simp add: bit_mask_iff)
qed

lemma unat_highest_capacity: "unat highest_capacity = 2 ^ 63"
  by (simp add: highest_capacity_def)

lemma compute_closest_capacity_pow2:
  assumes n: "0 < unat n" "unat n \<le> 2 ^ 63"
  shows "\<exists>k\<le>63. compute_closest_capacity nd n = Inr (2 ^ k) \<and> unat n \<le> 2 ^ k
           \<and> (\<forall>j. unat n \<le> 2 ^ j \<longrightarrow> k \<le> j)"
proof -
  define x where "x = n - 1"
  have n0: "n \<noteq> 0" using n by (auto simp: unat_eq_0)
  have ux: "unat x = unat n - 1" unfolding x_def using n0 by (rule unat_minus_one)
  define m where "m = (LEAST m. unat x < 2 ^ m)"
  have "unat x < 2 ^ 63" using ux n by simp
  then have ex: "\<exists>m. unat x < 2 ^ m" by blast
  have lt: "unat x < 2 ^ m" unfolding m_def using ex by (rule LeastI_ex)
  have m63: "m \<le> 63" unfolding m_def using \<open>unat x < 2 ^ 63\<close> by (rule Least_le)
  have ge: "m = 0 \<or> 2 ^ (m - 1) \<le> unat x"
  proof (cases m)
    case 0 then show ?thesis by simp
  next
    case (Suc k)
    have "\<not> unat x < 2 ^ k"
    proof
      assume "unat x < 2 ^ k"
      then have "m \<le> k" unfolding m_def by (rule Least_le)
      with Suc show False by simp
    qed
    with Suc show ?thesis by simp
  qed
  have "smear_loop 1 x = mask m" using lt ge m63 by (intro smear_loop_mask) simp_all
  then have r: "smear_loop 1 (n - 1) + 1 = 2 ^ m" by (simp add: x_def inc_mask_eq_exp)
  have le: "\<not> highest_capacity < n"
    using n by (simp add: word_less_nat_alt unat_highest_capacity)
  have "compute_closest_capacity nd n = Inr (2 ^ m)"
    using le r by (simp add: compute_closest_capacity_def)
  moreover have "unat n \<le> 2 ^ m" using lt ux n by simp
  moreover have "m \<le> j" if "unat n \<le> 2 ^ j" for j
  proof (rule ccontr)
    assume "\<not> m \<le> j"
    then obtain k where k: "m = Suc k" "j \<le> k" by (cases m) simp_all
    have "(2::nat) ^ j \<le> 2 ^ k" using k by simp
    moreover have "2 ^ k \<le> unat x" using ge k by simp
    ultimately show False using that ux n by linarith
  qed
  ultimately show ?thesis using m63 by blast
qed

lemma compute_closest_capacity_overflow:
  assumes "2 ^ 63 < unat n"
  shows "compute_closest_capacity False n = Inl Assertion_failed"
    and "compute_closest_capacity True n = Inr (2 ^ 63)"
  using assms
  by (simp_all add: compute_closest_capacity_def word_less_nat_alt unat_highest_capacity)
    (simp add: highest_capacity_def)

text \<open>
  C5, as the code has it: for every \<^verbatim>\<open>min_capacity\<close> from 1 to \<open>2 ^ 63\<close> the result is
  the smallest power of two that is at least \<^verbatim>\<open>min_capacity\<close>; above \<open>2 ^ 63\<close> a build with
  assertions fails the assertion and a build with \<^verbatim>\<open>NDEBUG\<close> returns \<open>2 ^ 63\<close>.
\<close>

theorem compute_closest_capacity_spec:
  "(0 < unat n \<and> unat n \<le> 2 ^ 63 \<longrightarrow>
      (\<exists>k\<le>63. compute_closest_capacity nd n = Inr (2 ^ k) \<and> unat n \<le> 2 ^ k
         \<and> (\<forall>j. unat n \<le> 2 ^ j \<longrightarrow> k \<le> j)))
   \<and> (2 ^ 63 < unat n \<longrightarrow>
      compute_closest_capacity False n = Inl Assertion_failed
      \<and> compute_closest_capacity True n = Inr (2 ^ 63))"
  using compute_closest_capacity_pow2 [of n nd] compute_closest_capacity_overflow [of n]
  by blast

theorem compute_closest_capacity_spec_witness:
  "compute_closest_capacity False 5 = Inr 8
   \<and> compute_closest_capacity False (2 ^ 63 + 1) = Inl Assertion_failed
   \<and> compute_closest_capacity True (2 ^ 63 + 1) = Inr (2 ^ 63)"
proof -
  have a: "0 < unat (5 :: size_t) \<and> unat (5 :: size_t) \<le> 2 ^ 63" by simp
  have b: "2 ^ 63 < unat (2 ^ 63 + 1 :: size_t)" by simp
  from compute_closest_capacity_spec [of 5 False] a
  obtain k where k: "compute_closest_capacity False 5 = Inr (2 ^ k)" by blast
  have "compute_closest_capacity False 5 = Inr 8"
    by (simp add: compute_closest_capacity_def highest_capacity_def smear_loop.simps)
  with k compute_closest_capacity_spec [of "2 ^ 63 + 1" False] b show ?thesis by blast
qed

theorem compute_closest_capacity_counterexample:
  "compute_closest_capacity False 0 = Inr 0
   \<and> compute_closest_capacity True 0 = Inr 0
   \<and> compute_closest_capacity True (2 ^ 63 + 1) = Inr (2 ^ 63)"
  by (simp add: compute_closest_capacity_def highest_capacity_def smear_loop.simps)

section \<open>Arithmetic on the ring of slots\<close>

lemma mod_if2: "x < 2 * n \<Longrightarrow> x mod n = (if x < n then x else x - (n::nat))"
  by (simp add: mod_if)

lemma cdist_if: "a < n \<Longrightarrow> b < n \<Longrightarrow> cdist n a b = (if a \<le> b then b - a else b + n - a)"
  unfolding cdist_def by (subst mod_if2) auto

lemma step_if:
  "a < n \<Longrightarrow> d \<le> n \<Longrightarrow> (a + d) mod n = (if a + d < n then a + d else a + d - (n::nat))"
  by (subst mod_if2) auto

lemma cdist_self: "a < n \<Longrightarrow> cdist n a a = 0"
  by (simp add: cdist_if)

lemma cdist_less: "a < n \<Longrightarrow> b < n \<Longrightarrow> cdist n a b < n"
  by (auto simp add: cdist_if)

lemma cdist_eq_0: "a < n \<Longrightarrow> b < n \<Longrightarrow> cdist n a b = 0 \<longleftrightarrow> a = b"
  by (auto simp add: cdist_if)

lemma cdist_step: "a < n \<Longrightarrow> d < n \<Longrightarrow> cdist n a ((a + d) mod n) = d"
  by (auto simp add: cdist_if step_if)

lemma step_cdist: "a < n \<Longrightarrow> b < n \<Longrightarrow> (a + cdist n a b) mod n = b"
  by (auto simp add: cdist_if step_if)

lemma cdist_split:
  "a < n \<Longrightarrow> b < n \<Longrightarrow> c < n \<Longrightarrow> cdist n a b \<le> cdist n a c \<Longrightarrow>
   cdist n a c = cdist n a b + cdist n b c"
  by (auto simp add: cdist_if split: if_splits)

lemma cdist_join:
  "a < n \<Longrightarrow> b < n \<Longrightarrow> c < n \<Longrightarrow> cdist n a b + cdist n b c < n \<Longrightarrow>
   cdist n a c = cdist n a b + cdist n b c"
  by (auto simp add: cdist_if split: if_splits)

lemma step_step: "((a + d) mod n + e) mod n = (a + (d + e)) mod (n::nat)"
  by (simp add: mod_add_left_eq add.assoc)

subsection \<open>Index arithmetic on a table of \<open>2 ^ m\<close> slots\<close>

lemma two_power_less: "m \<le> 63 \<Longrightarrow> (2::nat) ^ m < 18446744073709551616"
  using power_strict_increasing [of m 64 "2::nat"] by simp

lemma two_power_dvd: "m \<le> 63 \<Longrightarrow> (2::nat) ^ m dvd 18446744073709551616"
  using le_imp_power_dvd [of m 64 "2::nat"] by simp

lemma unat_two_power: "m \<le> 63 \<Longrightarrow> unat (2 ^ m :: size_t) = 2 ^ m"
proof -
  assume m: "m \<le> 63"
  have "(2 ^ m :: size_t) = word_of_nat (2 ^ m)" by simp
  then have "unat (2 ^ m :: size_t) = 2 ^ m mod 2 ^ 64"
    by (simp only: unat_of_nat) simp
  then show ?thesis using two_power_less [OF m] by simp
qed

lemma bucket_count_pow2:
  "length (m_buckets t) = 2 ^ m \<Longrightarrow> bucket_count t = 2 ^ m"
  by (simp add: bucket_count_def)

lemma unat_compute_index:
  assumes "m \<le> 63"
  shows "unat (compute_index h (2 ^ m)) = unat h mod 2 ^ m"
proof -
  have "compute_index h (2 ^ m) = take_bit m h"
    by (simp add: compute_index_def take_bit_eq_mask mask_eq_exp_minus_1)
  then show ?thesis
    by (simp add: unsigned_take_bit_eq take_bit_eq_mod flip: take_bit_eq_mod)
qed

lemma unat_key_to_idx:
  assumes "length (m_buckets t) = 2 ^ m" "m \<le> 63"
  shows "unat (key_to_idx env t k) = unat (hasher env k) mod length (m_buckets t)"
  using assms by (simp add: key_to_idx_def bucket_count_pow2 unat_compute_index)

lemma unat_probe_next:
  assumes "length (m_buckets t) = 2 ^ m" "m \<le> 63"
  shows "unat (probe_next t idx) = (unat idx + 1) mod length (m_buckets t)"
proof -
  have "unat (probe_next t idx) = unat (idx + 1) mod 2 ^ m"
    using assms by (simp add: probe_next_def bucket_count_pow2 unat_compute_index)
  also have "\<dots> = (unat idx + 1) mod 2 ^ m"
    using two_power_dvd [OF assms(2)] by (simp add: unat_word_ariths mod_mod_cancel)
  finally show ?thesis using assms by simp
qed

lemma unat_diff:
  assumes "length (m_buckets t) = 2 ^ m" "m \<le> 63"
    and "unat a < length (m_buckets t)" "unat b < length (m_buckets t)"
  shows "unat (diff t a b) = cdist (length (m_buckets t)) (unat b) (unat a)"
proof -
  let ?n = "(2::nat) ^ m"
  let ?W = "18446744073709551616::nat"
  note d = two_power_dvd [OF assms(2)]
  have a: "unat a < ?n" and b: "unat b < ?n" using assms by simp_all
  have "unat (diff t a b) = unat (2 ^ m + (a - b)) mod ?n"
    using assms by (simp add: diff_def bucket_count_pow2 unat_compute_index)
  also have "\<dots> = (?n + unat (a - b)) mod ?n"
    using d by (simp add: unat_word_ariths mod_mod_cancel unat_two_power assms)
  also have "\<dots> = unat (a - b) mod ?n"
    by simp
  also have "\<dots> = (unat a + ?n - unat b) mod ?n"
  proof (cases "unat b \<le> unat a")
    case True
    then have "unat (a - b) = unat a - unat b" by (simp add: unat_sub_if')
    moreover have "unat a + ?n - unat b = (unat a - unat b) + ?n" using True by simp
    ultimately show ?thesis by simp
  next
    case False
    then have s: "unat (a - b) = unat a + ?W - unat b" by (simp add: unat_sub_if')
    obtain q where q: "?W = ?n * q" using d by (auto simp: dvd_def)
    have "q \<noteq> 0" using q by (intro notI) simp
    then obtain q' where q': "q = Suc q'" by (cases q) simp_all
    have "unat a + ?W - unat b = (unat a + ?n - unat b) + ?n * q'"
      using b q q' by simp
    then show ?thesis unfolding s by simp
  qed
  finally show ?thesis using assms by (simp add: cdist_def)
qed

section \<open>Rounding to binary32\<close>

lemma round_to_float_small: "n < 2 ^ 24 \<Longrightarrow> round_to_float n = n"
proof -
  assume n: "n < 2 ^ 24"
  have "floorlog 2 n \<le> 24"
    using n by (intro floorlog_leI) simp_all
  then have "floorlog 2 n - 24 = 0" by simp
  then show ?thesis by (simp add: round_to_float_def)
qed

lemma floorlog_two_power: "floorlog 2 ((2::nat) ^ k) = Suc k"
proof (rule antisym)
  show "floorlog 2 ((2::nat) ^ k) \<le> Suc k" by (intro floorlog_leI) simp_all
  show "Suc k \<le> floorlog 2 ((2::nat) ^ k)" by (intro floorlog_ge_SucI) simp_all
qed

lemma floorlog_zero: "floorlog 2 (0::nat) = 0"
  by (simp add: floorlog_def)

lemma round_to_float_between:
  "n div 2 ^ (floorlog 2 n - 24) * 2 ^ (floorlog 2 n - 24) \<le> round_to_float n
   \<and> round_to_float n \<le> (n div 2 ^ (floorlog 2 n - 24) + 1) * 2 ^ (floorlog 2 n - 24)"
  by (simp add: round_to_float_def Let_def)

lemma round_to_float_lower:
  assumes "0 < n"
  shows "2 ^ (floorlog 2 n - 1) \<le> round_to_float n"
proof (cases "floorlog 2 n \<le> 24")
  case True
  then have "n < 2 ^ 24" by (intro floorlog_leD) simp_all
  then have "round_to_float n = n" by (rule round_to_float_small)
  with floorlog_bounds [of n 2] assms show ?thesis by simp
next
  case False
  define e where "e = floorlog 2 n - 24"
  have L: "floorlog 2 n - 1 = 23 + e" using False by (simp add: e_def)
  have "(2::nat) ^ (23 + e) \<le> n" using floorlog_bounds [of n 2] assms L by simp
  then have "2 ^ 23 * 2 ^ e div 2 ^ e \<le> n div (2::nat) ^ e"
    by (intro div_le_mono) (simp add: power_add)
  then have "(2::nat) ^ 23 \<le> n div 2 ^ e" by simp
  then have "(2::nat) ^ 23 * 2 ^ e \<le> n div 2 ^ e * 2 ^ e" by (intro mult_le_mono1)
  also have "\<dots> \<le> round_to_float n" using round_to_float_between [of n] by (simp add: e_def)
  finally have "(2::nat) ^ (23 + e) \<le> round_to_float n" by (simp only: power_add)
  then show ?thesis by (simp only: L)
qed

lemma round_to_float_upper: "round_to_float n \<le> 2 ^ floorlog 2 n"
proof (cases "floorlog 2 n \<le> 24")
  case True
  then have n: "n < 2 ^ 24" by (intro floorlog_leD) simp_all
  then have r: "round_to_float n = n" by (rule round_to_float_small)
  show ?thesis
  proof (cases "n = 0")
    case True with r show ?thesis by simp
  next
    case False
    with floorlog_bounds [of n 2] r show ?thesis by simp
  qed
next
  case False
  define e where "e = floorlog 2 n - 24"
  have L: "floorlog 2 n = 24 + e" using False by (simp add: e_def)
  have n0: "0 < n" using False by (cases "n = 0") (simp_all add: floorlog_zero)
  have "n < 2 ^ 24 * 2 ^ e" using floorlog_bounds [of n 2] n0 L by (simp add: power_add)
  then have "n div 2 ^ e < 2 ^ 24"
    by (simp add: less_mult_imp_div_less)
  then have "n div 2 ^ e + 1 \<le> 2 ^ 24" by simp
  then have a: "(n div 2 ^ e + 1) * 2 ^ e \<le> 2 ^ 24 * 2 ^ e" by (intro mult_le_mono1)
  have "round_to_float n \<le> (n div 2 ^ e + 1) * 2 ^ e"
    using round_to_float_between [of n] by (simp add: e_def)
  then have "round_to_float n \<le> 2 ^ 24 * 2 ^ e" using a by (rule order_trans)
  then show ?thesis by (simp only: L power_add)
qed

lemma round_to_float_mono_same:
  assumes "floorlog 2 a = floorlog 2 b" and "a \<le> b"
  shows "round_to_float a \<le> round_to_float b"
proof -
  define e where "e = floorlog 2 b - 24"
  define p where "p = (2::nat) ^ e"
  have p0: "0 < p" by (simp add: p_def)
  have qa: "a div p \<le> b div p" using assms by (intro div_le_mono)
  have ra: "round_to_float a =
      (if p < 2 * (a mod p) \<or> (p = 2 * (a mod p) \<and> odd (a div p)) then (a div p + 1) * p
       else a div p * p)"
    using assms by (simp add: round_to_float_def Let_def e_def p_def)
  have rb: "round_to_float b =
      (if p < 2 * (b mod p) \<or> (p = 2 * (b mod p) \<and> odd (b div p)) then (b div p + 1) * p
       else b div p * p)"
    by (simp add: round_to_float_def Let_def e_def p_def)
  show ?thesis
  proof (cases "a div p < b div p")
    case True
    then have "a div p + 1 \<le> b div p" by simp
    then have "(a div p + 1) * p \<le> b div p * p" by (intro mult_le_mono1)
    moreover have "round_to_float a \<le> (a div p + 1) * p" unfolding ra by simp
    moreover have "b div p * p \<le> round_to_float b" unfolding rb by simp
    ultimately show ?thesis by linarith
  next
    case False
    with qa have q: "a div p = b div p" by simp
    have r: "a mod p \<le> b mod p"
      using div_mult_mod_eq [of a p] div_mult_mod_eq [of b p] assms(2) unfolding q by linarith
    show ?thesis
    proof (cases "p < 2 * (a mod p) \<or> (p = 2 * (a mod p) \<and> odd (b div p))")
      case True
      then have "p < 2 * (b mod p) \<or> (p = 2 * (b mod p) \<and> odd (b div p))"
        using r by (elim disjE conjE) linarith+
      with True show ?thesis by (simp add: ra rb q)
    next
      case False
      then have "round_to_float a = b div p * p" unfolding ra q by (rule if_not_P)
      moreover have "b div p * p \<le> round_to_float b" unfolding rb by simp
      ultimately show ?thesis by simp
    qed
  qed
qed

lemma round_to_float_mono:
  assumes "a \<le> b"
  shows "round_to_float a \<le> round_to_float b"
proof (cases "floorlog 2 a = floorlog 2 b")
  case True
  then show ?thesis using assms by (rule round_to_float_mono_same)
next
  case False
  with floorlog_mono [OF assms, of 2] have l: "floorlog 2 a \<le> floorlog 2 b - 1" by simp
  have b0: "0 < b" using False l by (cases "b = 0") (simp_all add: floorlog_zero)
  have "round_to_float a \<le> 2 ^ floorlog 2 a" by (rule round_to_float_upper)
  also have "\<dots> \<le> 2 ^ (floorlog 2 b - 1)" using l by (intro power_increasing) simp_all
  also have "\<dots> \<le> round_to_float b" using b0 by (rule round_to_float_lower)
  finally show ?thesis .
qed

lemma round_to_float_two_power: "round_to_float (2 ^ k) = 2 ^ k"
proof (cases "k < 24")
  case True
  then have "(2::nat) ^ k < 2 ^ 24" by (intro power_strict_increasing) simp_all
  then show ?thesis by (rule round_to_float_small)
next
  case False
  define e where "e = k - 23"
  have k: "k = 23 + e" using False by (simp add: e_def)
  have e: "Suc k - 24 = e" by (simp add: k)
  have d: "(2::nat) ^ k div 2 ^ e = 2 ^ 23" and m: "(2::nat) ^ k mod 2 ^ e = 0"
    by (simp_all add: k power_add)
  show ?thesis
    unfolding round_to_float_def floorlog_two_power e Let_def d m by (simp add: k power_add)
qed

lemma round_to_float_zero: "round_to_float n = 0 \<longleftrightarrow> n = 0"
proof
  assume r: "round_to_float n = 0"
  show "n = 0"
  proof (rule ccontr)
    assume "n \<noteq> 0"
    then have "2 ^ (floorlog 2 n - 1) \<le> round_to_float n" by (intro round_to_float_lower) simp
    with r show False by simp
  qed
next
  assume "n = 0" then show "round_to_float n = 0" by (simp add: round_to_float_small)
qed

text \<open>A table of \<open>2 ^ m\<close> slots whose load passes the growth check has an empty slot.\<close>

lemma load_less_capacity:
  assumes "2 * round_to_float c \<le> 2 ^ m"
  shows "c < 2 ^ m"
proof (rule ccontr)
  assume "\<not> c < 2 ^ m"
  then have "round_to_float (2 ^ m) \<le> round_to_float c" by (intro round_to_float_mono) simp
  then have "(2::nat) ^ m \<le> round_to_float c" by (simp add: round_to_float_two_power)
  with assms have "2 * (2::nat) ^ m \<le> 2 ^ m" by linarith
  then show False by simp
qed

lemma load_exact:
  assumes "2 * round_to_float c \<le> n" and "n \<le> 2 ^ 24"
  shows "2 * c \<le> n"
proof -
  have "c < 2 ^ 24"
  proof (rule ccontr)
    assume "\<not> c < 2 ^ 24"
    then have "round_to_float (2 ^ 24) \<le> round_to_float c" by (intro round_to_float_mono) simp
    then have "(2::nat) ^ 24 \<le> round_to_float c" by (simp only: round_to_float_two_power)
    with assms show False by simp
  qed
  then have "round_to_float c = c" by (rule round_to_float_small)
  with assms show ?thesis by simp
qed

section \<open>The probe loops\<close>

lemma unat_word_of_nat_slot:
  "length (m_buckets t) = 2 ^ m \<Longrightarrow> m \<le> 63 \<Longrightarrow> p < length (m_buckets t) \<Longrightarrow>
   unat (word_of_nat p :: size_t) = p"
  using two_power_less [of m] by (simp add: unat_of_nat)

lemma find_probe_skip:
  assumes cap: "length (m_buckets t) = 2 ^ m" "m \<le> 63"
  shows "unat idx < length (m_buckets t) \<Longrightarrow>
    (\<forall>d<D. fst (m_buckets t ! ((unat idx + d) mod length (m_buckets t))) \<noteq> key
          \<and> fst (m_buckets t ! ((unat idx + d) mod length (m_buckets t))) \<noteq> m_empty_key t) \<Longrightarrow>
    \<exists>idx'. unat idx' = (unat idx + D) mod length (m_buckets t)
         \<and> find_probe (D + F) t key idx = find_probe F t key idx'"
proof (induction D arbitrary: idx)
  case 0
  then show ?case by (intro exI [of _ idx]) simp
next
  case (Suc D)
  let ?n = "length (m_buckets t)"
  let ?j = "probe_next t idx"
  have n0: "0 < ?n" using cap by simp
  have j: "unat ?j = (unat idx + 1) mod ?n" using cap by (rule unat_probe_next)
  then have jn: "unat ?j < ?n" using n0 by simp
  have here: "fst (m_buckets t ! unat idx) \<noteq> key \<and> fst (m_buckets t ! unat idx) \<noteq> m_empty_key t"
    using Suc.prems(2) [rule_format, of 0] Suc.prems(1) by simp
  have rest: "\<forall>d<D. fst (m_buckets t ! ((unat ?j + d) mod ?n)) \<noteq> key
          \<and> fst (m_buckets t ! ((unat ?j + d) mod ?n)) \<noteq> m_empty_key t"
  proof (intro allI impI)
    fix d assume "d < D"
    then have "Suc d < Suc D" by simp
    from Suc.prems(2) [rule_format, OF this]
    show "fst (m_buckets t ! ((unat ?j + d) mod ?n)) \<noteq> key
          \<and> fst (m_buckets t ! ((unat ?j + d) mod ?n)) \<noteq> m_empty_key t"
      by (simp add: j mod_add_left_eq)
  qed
  from Suc.IH [OF jn rest] obtain idx' where
    i': "unat idx' = (unat ?j + D) mod ?n" "find_probe (D + F) t key ?j = find_probe F t key idx'"
    by blast
  have "find_probe (Suc D + F) t key idx = find_probe (D + F) t key ?j"
    using here Suc.prems(1) by simp
  moreover have "(unat ?j + D) mod ?n = (unat idx + Suc D) mod ?n"
    by (simp add: j mod_add_left_eq)
  ultimately show ?case using i' by (intro exI [of _ idx']) simp
qed

lemma emplace_probe_skip:
  assumes cap: "length (m_buckets t) = 2 ^ m" "m \<le> 63"
  shows "unat idx < length (m_buckets t) \<Longrightarrow>
    (\<forall>d<D. fst (m_buckets t ! ((unat idx + d) mod length (m_buckets t))) \<noteq> key
          \<and> fst (m_buckets t ! ((unat idx + d) mod length (m_buckets t))) \<noteq> m_empty_key t) \<Longrightarrow>
    \<exists>idx'. unat idx' = (unat idx + D) mod length (m_buckets t)
         \<and> emplace_probe (D + F) t key val idx = emplace_probe F t key val idx'"
proof (induction D arbitrary: idx)
  case 0
  then show ?case by (intro exI [of _ idx]) simp
next
  case (Suc D)
  let ?n = "length (m_buckets t)"
  let ?j = "probe_next t idx"
  have n0: "0 < ?n" using cap by simp
  have j: "unat ?j = (unat idx + 1) mod ?n" using cap by (rule unat_probe_next)
  then have jn: "unat ?j < ?n" using n0 by simp
  have here: "fst (m_buckets t ! unat idx) \<noteq> key \<and> fst (m_buckets t ! unat idx) \<noteq> m_empty_key t"
    using Suc.prems(2) [rule_format, of 0] Suc.prems(1) by simp
  have rest: "\<forall>d<D. fst (m_buckets t ! ((unat ?j + d) mod ?n)) \<noteq> key
          \<and> fst (m_buckets t ! ((unat ?j + d) mod ?n)) \<noteq> m_empty_key t"
  proof (intro allI impI)
    fix d assume "d < D"
    then have "Suc d < Suc D" by simp
    from Suc.prems(2) [rule_format, OF this]
    show "fst (m_buckets t ! ((unat ?j + d) mod ?n)) \<noteq> key
          \<and> fst (m_buckets t ! ((unat ?j + d) mod ?n)) \<noteq> m_empty_key t"
      by (simp add: j mod_add_left_eq)
  qed
  from Suc.IH [OF jn rest] obtain idx' where
    i': "unat idx' = (unat ?j + D) mod ?n"
      "emplace_probe (D + F) t key val ?j = emplace_probe F t key val idx'"
    by blast
  have "emplace_probe (Suc D + F) t key val idx = emplace_probe (D + F) t key val ?j"
    using here Suc.prems(1) by simp
  moreover have "(unat ?j + D) mod ?n = (unat idx + Suc D) mod ?n"
    by (simp add: j mod_add_left_eq)
  ultimately show ?case using i' by (intro exI [of _ idx']) simp
qed

text \<open>On a table with an empty slot, a run of occupied slots from any slot ends within the ring.\<close>

lemma first_empty:
  assumes i: "i < (n::nat)" and e: "e < n" "\<not> P e"
  shows "\<exists>D<n. \<not> P ((i + D) mod n) \<and> (\<forall>d<D. P ((i + d) mod n))"
proof -
  define D where "D = (LEAST d. \<not> P ((i + d) mod n))"
  have ex: "\<not> P ((i + cdist n i e) mod n)" using i e by (simp add: step_cdist)
  then have "\<not> P ((i + D) mod n)" unfolding D_def by (rule LeastI)
  moreover have "D \<le> cdist n i e" unfolding D_def using ex by (rule Least_le)
  then have "D < n" using cdist_less [OF i e(1)] by simp
  moreover have "\<forall>d<D. P ((i + d) mod n)"
    unfolding D_def using not_less_Least by blast
  ultimately show ?thesis by blast
qed

lemma occupied_count:
  "length (occupied_slots t) = card {i. i < length (m_buckets t) \<and> occupied t i}"
  by (simp add: occupied_slots_def occupied_def length_filter_conv_card)

lemma has_empty_slot:
  assumes "length (occupied_slots t) < length (m_buckets t)"
  shows "\<exists>e<length (m_buckets t). \<not> occupied t e"
proof (rule ccontr)
  assume "\<not> ?thesis"
  then have "{i. i < length (m_buckets t) \<and> occupied t i} = {..<length (m_buckets t)}" by auto
  then have "length (occupied_slots t) = length (m_buckets t)" by (simp add: occupied_count)
  with assms show False by simp
qed

lemma inv_has_empty_slot:
  assumes "inv env t" and "length (m_buckets t) = 2 ^ m"
  shows "\<exists>e<length (m_buckets t). \<not> occupied t e"
proof -
  have "2 * round_to_float (length (occupied_slots t)) \<le> 2 ^ m"
    using assms by (simp add: inv_def)
  then have "length (occupied_slots t) < 2 ^ m" by (rule load_less_capacity)
  then show ?thesis using assms(2) by (intro has_empty_slot) simp
qed

lemma home_less:
  assumes "length (m_buckets t) = 2 ^ m" "m \<le> 63"
  shows "home env t key < length (m_buckets t)"
  using assms by (simp add: home_def unat_key_to_idx)

text \<open>The keys on the way from the home slot of a stored key to its slot are other keys.\<close>

lemma path_to_present:
  assumes cap: "length (m_buckets t) = 2 ^ m" "m \<le> 63"
    and u: "unique_keys t" and c: "contiguous env t"
    and p: "p < length (m_buckets t)" "occupied t p" "fst (m_buckets t ! p) = key"
    and d: "d < cdist (length (m_buckets t)) (home env t key) p"
  shows "fst (m_buckets t ! ((home env t key + d) mod length (m_buckets t))) \<noteq> key
       \<and> fst (m_buckets t ! ((home env t key + d) mod length (m_buckets t))) \<noteq> m_empty_key t"
proof -
  let ?n = "length (m_buckets t)"
  let ?h = "home env t key"
  let ?q = "(?h + d) mod ?n"
  have h: "?h < ?n" using cap by (rule home_less)
  have dn: "d < ?n" using d cdist_less [OF h p(1)] by simp
  have "0 < ?n" using cap by simp
  then have q: "?q < ?n" by simp
  have "occupied t ?q" using c p d by (auto simp: contiguous_def)
  then have ne: "fst (m_buckets t ! ?q) \<noteq> m_empty_key t" by (simp add: occupied_def)
  have "fst (m_buckets t ! ?q) \<noteq> key"
  proof
    assume "fst (m_buckets t ! ?q) = key"
    with u p q have "p = ?q" by (auto simp: unique_keys_def)
    then have "cdist ?n ?h p = d" using h dn by (simp add: cdist_step)
    with d show False by simp
  qed
  with ne show ?thesis by simp
qed

lemma find_probe_present:
  assumes cap: "length (m_buckets t) = 2 ^ m" "m \<le> 63"
    and u: "unique_keys t" and c: "contiguous env t"
    and p: "p < length (m_buckets t)" "occupied t p" "fst (m_buckets t ! p) = key"
    and fuel: "cdist (length (m_buckets t)) (home env t key) p < fuel"
  shows "find_probe fuel t key (key_to_idx env t key) = Some (Inr (word_of_nat p))"
proof -
  let ?n = "length (m_buckets t)"
  let ?h = "home env t key"
  let ?D = "cdist ?n ?h p"
  have h: "?h < ?n" using cap by (rule home_less)
  obtain F where F: "fuel = ?D + Suc F" using fuel less_iff_Suc_add by auto
  have "\<forall>d<?D. fst (m_buckets t ! ((?h + d) mod ?n)) \<noteq> key
      \<and> fst (m_buckets t ! ((?h + d) mod ?n)) \<noteq> m_empty_key t"
    using path_to_present [OF cap u c p] by blast
  from find_probe_skip [OF cap h [unfolded home_def] this [unfolded home_def], of "Suc F"]
  obtain idx' where i': "unat idx' = (?h + ?D) mod ?n"
    "find_probe (?D + Suc F) t key (key_to_idx env t key) = find_probe (Suc F) t key idx'"
    by (auto simp: home_def)
  have "unat idx' = p" using i' h p by (simp add: step_cdist)
  then have "find_probe (Suc F) t key idx' = Some (Inr idx')" and "idx' = word_of_nat p"
    using p by auto
  then show ?thesis using i' F by simp
qed

lemma find_probe_absent:
  assumes cap: "length (m_buckets t) = 2 ^ m" "m \<le> 63"
    and e: "\<exists>e<length (m_buckets t). \<not> occupied t e"
    and k: "key \<noteq> m_empty_key t"
    and a: "\<forall>i<length (m_buckets t). fst (m_buckets t ! i) \<noteq> key"
    and fuel: "length (m_buckets t) \<le> fuel"
  shows "find_probe fuel t key (key_to_idx env t key) = Some (Inr (end_it t))"
proof -
  let ?n = "length (m_buckets t)"
  let ?h = "home env t key"
  have h: "?h < ?n" using cap by (rule home_less)
  from e obtain e where "e < ?n" "\<not> occupied t e" by blast
  from first_empty [of ?h ?n e "occupied t", OF h this]
  obtain D where D: "D < ?n" "\<not> occupied t ((?h + D) mod ?n)"
    "\<forall>d<D. occupied t ((?h + d) mod ?n)" by blast
  obtain F where F: "fuel = D + Suc F" using fuel D(1) less_iff_Suc_add [of D fuel] by auto
  have n0: "0 < ?n" using cap by simp
  have "\<forall>d<D. fst (m_buckets t ! ((?h + d) mod ?n)) \<noteq> key
      \<and> fst (m_buckets t ! ((?h + d) mod ?n)) \<noteq> m_empty_key t"
  proof (intro allI impI)
    fix d assume "d < D"
    moreover have "(?h + d) mod ?n < ?n" using n0 by simp
    ultimately show "fst (m_buckets t ! ((?h + d) mod ?n)) \<noteq> key
      \<and> fst (m_buckets t ! ((?h + d) mod ?n)) \<noteq> m_empty_key t"
      using D(3) a by (simp add: occupied_def)
  qed
  from find_probe_skip [OF cap h [unfolded home_def] this [unfolded home_def], of "Suc F"]
  obtain idx' where i': "unat idx' = (?h + D) mod ?n"
    "find_probe (D + Suc F) t key (key_to_idx env t key) = find_probe (Suc F) t key idx'"
    by (auto simp: home_def)
  have "unat idx' < ?n" using i' n0 by simp
  moreover have "fst (m_buckets t ! unat idx') \<noteq> key" using a calculation by simp
  moreover have "fst (m_buckets t ! unat idx') = m_empty_key t"
    using D(2) i' by (simp add: occupied_def)
  ultimately have "find_probe (Suc F) t key idx' = Some (Inr (end_it t))" by simp
  then show ?thesis using i' F by simp
qed


lemma probe_stops:
  assumes cap: "length (m_buckets t) = 2 ^ m" "m \<le> 63"
    and load: "2 * length (occupied_slots t) \<le> length (m_buckets t)"
  shows "\<exists>D<length (m_buckets t). \<exists>idx'.
     unat idx' < length (m_buckets t)
     \<and> (fst (m_buckets t ! unat idx') = key \<or> fst (m_buckets t ! unat idx') = m_empty_key t)
     \<and> (\<forall>F. find_probe (D + F) t key (key_to_idx env t key) = find_probe F t key idx')
     \<and> (\<forall>F. emplace_probe (D + F) t key val (key_to_idx env t key) = emplace_probe F t key val idx')"
proof -
  let ?n = "length (m_buckets t)"
  let ?h = "home env t key"
  let ?P = "\<lambda>i. fst (m_buckets t ! i) \<noteq> key \<and> fst (m_buckets t ! i) \<noteq> m_empty_key t"
  have n0: "0 < ?n" using cap by simp
  have h: "?h < ?n" using cap by (rule home_less)
  have "length (occupied_slots t) < ?n" using load n0 by linarith
  then obtain e where e: "e < ?n" "\<not> occupied t e" using has_empty_slot by blast
  then have "\<not> ?P e" by (simp add: occupied_def)
  from first_empty [of ?h ?n e ?P, OF h e(1) this]
  obtain D where D: "D < ?n" "\<not> ?P ((?h + D) mod ?n)" "\<forall>d<D. ?P ((?h + d) mod ?n)" by blast
  have s: "\<forall>d<D. fst (m_buckets t ! ((unat (key_to_idx env t key) + d) mod ?n)) \<noteq> key
      \<and> fst (m_buckets t ! ((unat (key_to_idx env t key) + d) mod ?n)) \<noteq> m_empty_key t"
    using D(3) by (simp add: home_def)
  define idx' :: size_t where "idx' = word_of_nat ((?h + D) mod ?n)"
  have "(?h + D) mod ?n < ?n" using n0 by simp
  then have u: "unat idx' = (?h + D) mod ?n"
    unfolding idx'_def using cap by (intro unat_word_of_nat_slot)
  have f: "find_probe (D + F) t key (key_to_idx env t key) = find_probe F t key idx'" for F
  proof -
    from find_probe_skip [OF cap h [unfolded home_def] s, of F]
    obtain j where j: "unat j = (?h + D) mod ?n"
      "find_probe (D + F) t key (key_to_idx env t key) = find_probe F t key j"
      by (auto simp: home_def)
    then have "j = idx'" using u by (simp add: word_unat_eq_iff)
    with j show ?thesis by simp
  qed
  have g: "emplace_probe (D + F) t key val (key_to_idx env t key) = emplace_probe F t key val idx'" for F
  proof -
    from emplace_probe_skip [OF cap h [unfolded home_def] s, of F val]
    obtain j where j: "unat j = (?h + D) mod ?n"
      "emplace_probe (D + F) t key val (key_to_idx env t key) = emplace_probe F t key val j"
      by (auto simp: home_def)
    then have "j = idx'" using u by (simp add: word_unat_eq_iff)
    with j show ?thesis by simp
  qed
  have "unat idx' < ?n" using u n0 by simp
  moreover have "fst (m_buckets t ! unat idx') = key \<or> fst (m_buckets t ! unat idx') = m_empty_key t"
    using D(2) u by auto
  ultimately show ?thesis using D(1) f g by blast
qed

section \<open>Storing into an empty slot\<close>

lemma home_cong:
  "length (m_buckets t') = length (m_buckets t) \<Longrightarrow> home env t' key = home env t key"
  by (simp add: home_def key_to_idx_def bucket_count_def)

lemma entries_nth:
  "entries t = {m_buckets t ! i | i. i < length (m_buckets t) \<and> occupied t i}"
  by (auto simp: entries_def occupied_slots_def occupied_def in_set_conv_nth) (metis fst_conv)

lemma store_occupied:
  assumes "p < length (m_buckets t)" and "key \<noteq> m_empty_key t"
    and "i < length (m_buckets t)"
  shows "occupied (t\<lparr>m_buckets := (m_buckets t)[p := (key, val)], m_size := s\<rparr>) i
         \<longleftrightarrow> i = p \<or> occupied t i"
  using assms by (auto simp: occupied_def nth_list_update)

lemma store_count:
  assumes p: "p < length (m_buckets t)" "\<not> occupied t p" and k: "key \<noteq> m_empty_key t"
  shows "length (occupied_slots (t\<lparr>m_buckets := (m_buckets t)[p := (key, val)], m_size := s\<rparr>))
         = Suc (length (occupied_slots t))"
proof -
  let ?t' = "t\<lparr>m_buckets := (m_buckets t)[p := (key, val)], m_size := s\<rparr>"
  let ?S = "{i. i < length (m_buckets t) \<and> occupied t i}"
  have "{i. i < length (m_buckets ?t') \<and> occupied ?t' i} = insert p ?S"
    using p(1) k by (auto simp: store_occupied)
  moreover have "finite ?S" "p \<notin> ?S" using p by simp_all
  ultimately show ?thesis by (simp add: occupied_count)
qed

lemma store_entries:
  assumes p: "p < length (m_buckets t)" "\<not> occupied t p" and k: "key \<noteq> m_empty_key t"
  shows "entries (t\<lparr>m_buckets := (m_buckets t)[p := (key, val)], m_size := s\<rparr>)
         = insert (key, val) (entries t)"
proof -
  let ?t' = "t\<lparr>m_buckets := (m_buckets t)[p := (key, val)], m_size := s\<rparr>"
  have o: "occupied ?t' i \<longleftrightarrow> i = p \<or> occupied t i" if "i < length (m_buckets t)" for i
    using p(1) k that by (rule store_occupied)
  show ?thesis
  proof (intro set_eqI iffI)
    fix x assume "x \<in> entries ?t'"
    then obtain i where i: "i < length (m_buckets t)" "occupied ?t' i" "x = m_buckets ?t' ! i"
      by (auto simp: entries_nth)
    show "x \<in> insert (key, val) (entries t)"
    proof (cases "i = p")
      case True with i p show ?thesis by simp
    next
      case False
      with i o have "occupied t i" "x = m_buckets t ! i" by simp_all
      with i show ?thesis by (auto simp: entries_nth)
    qed
  next
    fix x assume x: "x \<in> insert (key, val) (entries t)"
    show "x \<in> entries ?t'"
    proof (cases "x = (key, val)")
      case True
      have "occupied ?t' p" "m_buckets ?t' ! p = (key, val)" using p o by simp_all
      with p True show ?thesis unfolding entries_nth by (intro CollectI exI [of _ p]) simp
    next
      case False
      with x obtain i where i: "i < length (m_buckets t)" "occupied t i" "x = m_buckets t ! i"
        by (auto simp: entries_nth)
      with p have "i \<noteq> p" by auto
      with i o have "occupied ?t' i" "m_buckets ?t' ! i = x" by simp_all
      with i show ?thesis unfolding entries_nth by (intro CollectI exI [of _ i]) simp
    qed
  qed
qed

lemma store_unique_keys:
  assumes p: "p < length (m_buckets t)" "\<not> occupied t p" and k: "key \<noteq> m_empty_key t"
    and a: "\<forall>i<length (m_buckets t). fst (m_buckets t ! i) \<noteq> key"
    and u: "unique_keys t"
  shows "unique_keys (t\<lparr>m_buckets := (m_buckets t)[p := (key, val)], m_size := s\<rparr>)"
  unfolding unique_keys_def
proof (intro allI impI)
  let ?t' = "t\<lparr>m_buckets := (m_buckets t)[p := (key, val)], m_size := s\<rparr>"
  fix i j
  assume i: "i < length (m_buckets ?t')" and j: "j < length (m_buckets ?t')"
    and o: "occupied ?t' i" and e: "fst (m_buckets ?t' ! i) = fst (m_buckets ?t' ! j)"
  show "i = j"
  proof (cases "i = p")
    case True
    show ?thesis
    proof (rule ccontr)
      assume "i \<noteq> j"
      with True e p j have "fst (m_buckets t ! j) = key" by simp
      with a j show False by simp
    qed
  next
    case ip: False
    show ?thesis
    proof (cases "j = p")
      case True
      with ip e p i have "fst (m_buckets t ! i) = key" by simp
      with a i show ?thesis by simp
    next
      case False
      with ip e i j have "fst (m_buckets t ! i) = fst (m_buckets t ! j)" by simp
      moreover have "occupied t i" using o ip i p k by (simp add: store_occupied)
      ultimately show ?thesis using u i j by (auto simp: unique_keys_def)
    qed
  qed
qed

lemma store_contiguous:
  assumes p: "p < length (m_buckets t)" and k: "key \<noteq> m_empty_key t"
    and path: "\<forall>d<cdist (length (m_buckets t)) (home env t key) p.
        occupied t ((home env t key + d) mod length (m_buckets t))"
    and c: "contiguous env t"
  shows "contiguous env (t\<lparr>m_buckets := (m_buckets t)[p := (key, val)], m_size := s\<rparr>)"
  unfolding contiguous_def
proof (intro allI impI)
  let ?t' = "t\<lparr>m_buckets := (m_buckets t)[p := (key, val)], m_size := s\<rparr>"
  let ?n = "length (m_buckets t)"
  fix i d
  assume i: "i < length (m_buckets ?t')" and o: "occupied ?t' i"
    and d: "d < cdist (length (m_buckets ?t')) (home env ?t' (fst (m_buckets ?t' ! i))) i"
  have n0: "0 < ?n" using p by (rule order.strict_trans1 [OF le0])
  have hc: "home env ?t' x = home env t x" for x by (rule home_cong) simp
  have q: "(home env t (fst (m_buckets ?t' ! i)) + d) mod ?n < ?n"
    using n0 by (rule mod_less_divisor)
  have "occupied t ((home env t (fst (m_buckets ?t' ! i)) + d) mod ?n)"
  proof (cases "i = p")
    case True
    with d p path show ?thesis by (simp add: hc)
  next
    case False
    then have "occupied t i" "m_buckets ?t' ! i = m_buckets t ! i"
      using o i p k by (simp_all add: store_occupied)
    with c d i show ?thesis by (simp add: contiguous_def hc)
  qed
  then show "occupied ?t' ((home env ?t' (fst (m_buckets ?t' ! i)) + d) mod length (m_buckets ?t'))"
    using q p k by (simp add: hc store_occupied)
qed

section \<open>Insertion without growth\<close>

lemma emplace_probe_present:
  assumes cap: "length (m_buckets t) = 2 ^ m" "m \<le> 63"
    and u: "unique_keys t" and c: "contiguous env t"
    and p: "p < length (m_buckets t)" "occupied t p" "fst (m_buckets t ! p) = key"
    and fuel: "cdist (length (m_buckets t)) (home env t key) p < fuel"
  shows "emplace_probe fuel t key val (key_to_idx env t key) = Some (Inr (t, word_of_nat p, False))"
proof -
  let ?n = "length (m_buckets t)"
  let ?h = "home env t key"
  let ?D = "cdist ?n ?h p"
  have h: "?h < ?n" using cap by (rule home_less)
  obtain F where F: "fuel = ?D + Suc F" using fuel less_iff_Suc_add by auto
  have "\<forall>d<?D. fst (m_buckets t ! ((?h + d) mod ?n)) \<noteq> key
      \<and> fst (m_buckets t ! ((?h + d) mod ?n)) \<noteq> m_empty_key t"
    using path_to_present [OF cap u c p] by blast
  from emplace_probe_skip [OF cap h [unfolded home_def] this [unfolded home_def], of "Suc F" val]
  obtain idx' where i': "unat idx' = (?h + ?D) mod ?n"
    "emplace_probe (?D + Suc F) t key val (key_to_idx env t key) = emplace_probe (Suc F) t key val idx'"
    by (auto simp: home_def)
  have "unat idx' = p" using i' h p by (simp add: step_cdist)
  then have "emplace_probe (Suc F) t key val idx' = Some (Inr (t, idx', False))"
    and "idx' = word_of_nat p"
    using p by (auto simp: occupied_def)
  then show ?thesis using i' F by simp
qed

lemma emplace_probe_absent:
  assumes cap: "length (m_buckets t) = 2 ^ m" "m \<le> 63"
    and e: "\<exists>e<length (m_buckets t). \<not> occupied t e"
    and a: "\<forall>i<length (m_buckets t). fst (m_buckets t ! i) \<noteq> key"
    and fuel: "length (m_buckets t) \<le> fuel"
  shows "\<exists>p<length (m_buckets t). \<not> occupied t p
      \<and> (\<forall>d<cdist (length (m_buckets t)) (home env t key) p.
            occupied t ((home env t key + d) mod length (m_buckets t)))
      \<and> emplace_probe fuel t key val (key_to_idx env t key)
          = Some (Inr (t\<lparr>m_buckets := (m_buckets t)[p := (key, val)], m_size := m_size t + 1\<rparr>,
                       word_of_nat p, True))"
proof -
  let ?n = "length (m_buckets t)"
  let ?h = "home env t key"
  have h: "?h < ?n" using cap by (rule home_less)
  have n0: "0 < ?n" using cap by simp
  from e obtain e where "e < ?n" "\<not> occupied t e" by blast
  from first_empty [of ?h ?n e "occupied t", OF h this]
  obtain D where D: "D < ?n" "\<not> occupied t ((?h + D) mod ?n)"
    "\<forall>d<D. occupied t ((?h + d) mod ?n)" by blast
  let ?p = "(?h + D) mod ?n"
  have pn: "?p < ?n" using n0 by simp
  obtain F where F: "fuel = D + Suc F" using fuel D(1) less_iff_Suc_add [of D fuel] by auto
  have "\<forall>d<D. fst (m_buckets t ! ((?h + d) mod ?n)) \<noteq> key
      \<and> fst (m_buckets t ! ((?h + d) mod ?n)) \<noteq> m_empty_key t"
  proof (intro allI impI)
    fix d assume "d < D"
    moreover have "(?h + d) mod ?n < ?n" using n0 by simp
    ultimately show "fst (m_buckets t ! ((?h + d) mod ?n)) \<noteq> key
      \<and> fst (m_buckets t ! ((?h + d) mod ?n)) \<noteq> m_empty_key t"
      using D(3) a by (simp add: occupied_def)
  qed
  from emplace_probe_skip [OF cap h [unfolded home_def] this [unfolded home_def], of "Suc F" val]
  obtain idx' where i': "unat idx' = ?p"
    "emplace_probe (D + Suc F) t key val (key_to_idx env t key) = emplace_probe (Suc F) t key val idx'"
    by (auto simp: home_def)
  have w: "idx' = word_of_nat ?p" unfolding i'(1) [symmetric] by simp
  have "fst (m_buckets t ! unat idx') = m_empty_key t"
    using D(2) i' by (simp add: occupied_def)
  then have "emplace_probe (Suc F) t key val idx'
      = Some (Inr (t\<lparr>m_buckets := (m_buckets t)[?p := (key, val)], m_size := m_size t + 1\<rparr>,
                   word_of_nat ?p, True))"
    using pn i'(1) w by simp
  moreover have "cdist ?n ?h ?p = D" using h D(1) by (rule cdist_step)
  ultimately show ?thesis using pn D(2,3) i'(2) F by (intro exI [of _ ?p]) simp
qed

text \<open>The growth check of \<^verbatim>\<open>check_for_rehash\<close>, in natural numbers.\<close>

lemma unat_size_succ:
  assumes "unat (s :: size_t) = c" and "c < 2 ^ 63"
  shows "unat (s + 1) = Suc c"
proof -
  have "unat s + unat (1 :: size_t) < 2 ^ LENGTH(64)" using assms by simp
  then have "unat (s + 1) = unat s + unat (1 :: size_t)" by (simp only: unat_add_lem)
  then show ?thesis using assms by simp
qed

lemma unat_bucket_count:
  "length (m_buckets t) < 2 ^ 64 \<Longrightarrow> unat (bucket_count t) = length (m_buckets t)"
  by (simp add: bucket_count_def unat_of_nat)

lemma growth_check:
  assumes cap: "length (m_buckets t) = 0 \<or> (\<exists>m\<le>63. length (m_buckets t) = 2 ^ m)"
    and s: "unat (m_size t) = c" "c < 2 ^ 63"
  shows "float_of_size_t (size_hm t + 1) > float_of_size_t (bucket_count t) * max_load_factor t
         \<longleftrightarrow> length (m_buckets t) < 2 * round_to_float (Suc c)"
proof -
  let ?n = "length (m_buckets t)"
  have lt: "?n < 2 ^ 64" using cap two_power_less by auto
  have r: "round_to_float ?n = ?n"
    using cap by (auto simp: round_to_float_two_power round_to_float_zero)
  have "float_of_size_t (bucket_count t) = real ?n"
    using lt r by (simp add: float_of_size_t_def unat_bucket_count)
  moreover have "float_of_size_t (size_hm t + 1) = real (round_to_float (Suc c))"
    using unat_size_succ [OF s] by (simp add: float_of_size_t_def size_hm_def)
  ultimately show ?thesis
    by (simp add: max_load_factor_def DEFAULT_MAX_LOAD_FACTOR_def flip: of_nat_mult)
      (metis (no_types) of_nat_less_iff of_nat_mult of_nat_numeral mult.commute
        less_divide_eq_numeral1(1) divide_less_eq_numeral1(1))
qed


lemma key_present_iff:
  assumes "key \<noteq> m_empty_key t"
  shows "key \<in> fst ` entries t \<longleftrightarrow> (\<exists>p<length (m_buckets t). fst (m_buckets t ! p) = key)"
proof
  assume "key \<in> fst ` entries t"
  then show "\<exists>p<length (m_buckets t). fst (m_buckets t ! p) = key"
    by (auto simp: entries_nth)
next
  assume "\<exists>p<length (m_buckets t). fst (m_buckets t ! p) = key"
  then obtain p where p: "p < length (m_buckets t)" "fst (m_buckets t ! p) = key" by blast
  then have "occupied t p" using assms by (simp add: occupied_def)
  then have "m_buckets t ! p \<in> entries t" using p unfolding entries_nth by blast
  then show "key \<in> fst ` entries t" using p(2) by force
qed

lemma inv_capacity_bound:
  assumes "inv env t"
  shows "length (m_buckets t) \<le> 2 ^ 63"
proof -
  have "m \<le> 63 \<Longrightarrow> (2::nat) ^ m \<le> 2 ^ 63" for m by (rule power_increasing) simp_all
  then show ?thesis using assms by (auto simp: inv_def)
qed

lemma inv_count_less:
  assumes "inv env t" and "length (m_buckets t) = 2 ^ m"
  shows "length (occupied_slots t) < length (m_buckets t)"
proof -
  have "2 * round_to_float (length (occupied_slots t)) \<le> 2 ^ m"
    using assms by (simp add: inv_def)
  then show ?thesis unfolding assms(2) by (rule load_less_capacity)
qed

lemma inv_store:
  assumes i: "inv env t" and cap: "length (m_buckets t) = 2 ^ m" "m \<le> 63"
    and p: "p < length (m_buckets t)" "\<not> occupied t p" and k: "key \<noteq> m_empty_key t"
    and a: "\<forall>i<length (m_buckets t). fst (m_buckets t ! i) \<noteq> key"
    and path: "\<forall>d<cdist (length (m_buckets t)) (home env t key) p.
        occupied t ((home env t key + d) mod length (m_buckets t))"
    and load: "2 * round_to_float (Suc (length (occupied_slots t))) \<le> length (m_buckets t)"
  shows "inv env (t\<lparr>m_buckets := (m_buckets t)[p := (key, val)], m_size := m_size t + 1\<rparr>)"
proof -
  let ?t' = "t\<lparr>m_buckets := (m_buckets t)[p := (key, val)], m_size := m_size t + 1\<rparr>"
  have c: "length (occupied_slots ?t') = Suc (length (occupied_slots t))"
    using p k by (rule store_count)
  have "length (occupied_slots t) < 2 ^ 63"
    using inv_count_less [OF i cap(1)] inv_capacity_bound [OF i] by simp
  moreover have "unat (m_size t) = length (occupied_slots t)" using i by (simp add: inv_def)
  ultimately have s: "unat (m_size ?t') = Suc (length (occupied_slots t))"
    using unat_size_succ by simp
  have "unique_keys ?t'" using p k a i by (intro store_unique_keys) (simp_all add: inv_def)
  moreover have "contiguous env ?t'"
    using p(1) k path i by (intro store_contiguous) (simp_all add: inv_def)
  ultimately show ?thesis
    using i c s load unfolding inv_def by simp
qed

lemma emplace_impl_stay:
  assumes i: "inv env t" and cap: "length (m_buckets t) = 2 ^ m" "m \<le> 63"
    and k: "key \<noteq> m_empty_key t"
    and load: "2 * round_to_float (Suc (length (occupied_slots t))) \<le> length (m_buckets t)"
    and fuel: "length (m_buckets t) \<le> fuel"
  shows "\<exists>t' it ins. emplace_impl env fuel t key val = Some (Inr (t', it, ins))
      \<and> inv env t' \<and> length (m_buckets t') = length (m_buckets t)
      \<and> m_empty_key t' = m_empty_key t
      \<and> unat it < length (m_buckets t) \<and> fst (m_buckets t' ! unat it) = key
      \<and> (if key \<in> fst ` entries t then \<not> ins \<and> t' = t
          else ins \<and> entries t' = insert (key, val) (entries t)
             \<and> length (occupied_slots t') = Suc (length (occupied_slots t))
             \<and> snd (m_buckets t' ! unat it) = val)"
proof -
  let ?n = "length (m_buckets t)"
  let ?c = "length (occupied_slots t)"
  have cl: "?c < 2 ^ 63"
    using inv_count_less [OF i cap(1)] inv_capacity_bound [OF i] by simp
  have "unat (m_size t) = ?c" using i by (simp add: inv_def)
  from growth_check [OF _ this cl] cap load
  have "\<not> float_of_size_t (size_hm t + 1) > float_of_size_t (bucket_count t) * max_load_factor t"
    by auto
  then have e: "emplace_impl env fuel t key val = emplace_probe fuel t key val (key_to_idx env t key)"
    using k by (simp add: emplace_impl.simps check_for_rehash.simps bind_result_def)
  have u: "unique_keys t" and c: "contiguous env t" using i by (simp_all add: inv_def)
  show ?thesis
  proof (cases "key \<in> fst ` entries t")
    case True
    then obtain p where p: "p < ?n" "fst (m_buckets t ! p) = key"
      using k by (auto simp: key_present_iff)
    then have o: "occupied t p" using k by (simp add: occupied_def)
    have "cdist ?n (home env t key) p < fuel"
      using cdist_less [OF home_less [OF cap] p(1), of env key] fuel by simp
    from emplace_probe_present [OF cap u c p(1) o p(2) this]
    have "emplace_impl env fuel t key val = Some (Inr (t, word_of_nat p, False))"
      using e by simp
    moreover have "unat (word_of_nat p :: size_t) = p"
      using cap p(1) by (rule unat_word_of_nat_slot)
    ultimately show ?thesis using True i p
      by (intro exI [of _ t] exI [of _ "word_of_nat p"] exI [of _ False]) simp
  next
    case False
    then have a: "\<forall>i<?n. fst (m_buckets t ! i) \<noteq> key" using k by (simp add: key_present_iff)
    from emplace_probe_absent [OF cap inv_has_empty_slot [OF i cap(1)] a fuel, of env val]
    obtain p where p: "p < ?n" "\<not> occupied t p"
      "\<forall>d<cdist ?n (home env t key) p. occupied t ((home env t key + d) mod ?n)"
      "emplace_probe fuel t key val (key_to_idx env t key)
          = Some (Inr (t\<lparr>m_buckets := (m_buckets t)[p := (key, val)], m_size := m_size t + 1\<rparr>,
                       word_of_nat p, True))"
      by blast
    let ?t' = "t\<lparr>m_buckets := (m_buckets t)[p := (key, val)], m_size := m_size t + 1\<rparr>"
    have "inv env ?t'" using i cap p(1,2) k a p(3) load by (rule inv_store)
    moreover have "entries ?t' = insert (key, val) (entries t)"
      using p(1,2) k by (rule store_entries)
    moreover have "length (occupied_slots ?t') = Suc ?c" using p(1,2) k by (rule store_count)
    moreover have "unat (word_of_nat p :: size_t) = p"
      using cap p(1) by (rule unat_word_of_nat_slot)
    ultimately show ?thesis using False e p(1,4)
      by (intro exI [of _ ?t'] exI [of _ "word_of_nat p"] exI [of _ True]) simp
  qed
qed

section \<open>Construction and rehashing\<close>

lemma compute_closest_capacity_result:
  assumes "compute_closest_capacity nd c = Inr r"
  shows "r = 0 \<or> (\<exists>k\<le>63. r = 2 ^ k)"
proof -
  consider "unat c = 0" | "0 < unat c" "unat c \<le> 2 ^ 63" | "2 ^ 63 < unat c" by linarith
  then show ?thesis
  proof cases
    case 1
    then have "c = 0" by (simp add: unat_eq_0)
    then have "compute_closest_capacity nd c = Inr 0"
      by (simp add: compute_closest_capacity_def highest_capacity_def smear_loop.simps)
    with assms show ?thesis by simp
  next
    case 2
    from compute_closest_capacity_pow2 [OF this, of nd] assms show ?thesis by auto
  next
    case 3
    from compute_closest_capacity_overflow [OF this] assms
    have "r = 2 ^ 63" by (cases nd) simp_all
    then show ?thesis by (intro disjI2 exI [of _ 63]) simp
  qed
qed

lemma compute_closest_capacity_idem:
  assumes "k \<le> 63"
  shows "compute_closest_capacity nd (2 ^ k) = Inr (2 ^ k)"
proof -
  have u: "unat (2 ^ k :: size_t) = 2 ^ k" using assms by (rule unat_two_power)
  have "(2::nat) ^ k \<le> 2 ^ 63" using assms by (intro power_increasing) simp_all
  with u have "0 < unat (2 ^ k :: size_t)" "unat (2 ^ k :: size_t) \<le> 2 ^ 63" by simp_all
  from compute_closest_capacity_pow2 [OF this, of nd]
  obtain k' where k': "compute_closest_capacity nd (2 ^ k) = Inr (2 ^ k')"
    "unat (2 ^ k :: size_t) \<le> 2 ^ k'" "\<forall>j. unat (2 ^ k :: size_t) \<le> 2 ^ j \<longrightarrow> k' \<le> j" by blast
  have "k' \<le> k" using k'(3) u by simp
  moreover have "k \<le> k'" using k'(2) u by simp
  ultimately show ?thesis using k'(1) by simp
qed

lemma occupied_slots_replicate:
  "occupied_slots \<lparr>m_empty_key = ek, m_buckets = replicate n (ek, v), m_size = s\<rparr> = []"
  by (simp add: occupied_slots_def)

lemma hash_map_ctor_inv:
  assumes "hash_map_ctor env c ek = Inr t"
  shows "inv env t \<and> m_empty_key t = ek \<and> occupied_slots t = []
       \<and> (\<exists>r. compute_closest_capacity (ndebug env) c = Inr r \<and> length (m_buckets t) = unat r)"
proof -
  from assms obtain r where r: "compute_closest_capacity (ndebug env) c = Inr r"
    "unat r \<le> max_size env"
    "t = \<lparr>m_empty_key = ek, m_buckets = replicate (unat r) (ek, mapped_init env), m_size = 0\<rparr>"
    by (auto simp: hash_map_ctor_def split: sum.splits if_splits)
  have o: "occupied_slots t = []" unfolding r(3) by (rule occupied_slots_replicate)
  have no: "\<not> occupied t i" if "i < length (m_buckets t)" for i
    using that by (simp add: r(3) occupied_def)
  have "unique_keys t" using no by (simp add: unique_keys_def)
  moreover have "contiguous env t" using no by (simp add: contiguous_def)
  moreover have "length (m_buckets t) = 0 \<or> (\<exists>m\<le>63. length (m_buckets t) = 2 ^ m)"
    using compute_closest_capacity_result [OF r(1)] by (auto simp: r(3) unat_two_power)
  moreover have "round_to_float 0 = 0" by (simp add: round_to_float_zero)
  ultimately have "inv env t" using r(2) o by (simp add: inv_def) (simp add: r(3))
  then show ?thesis using o r by simp
qed

text \<open>
  The loop of the copying constructor: while the target has room for all the remaining
  entries, no insertion grows it, and every entry lands in it.
\<close>

lemma insert_range_fresh:
  assumes cap: "m \<le> 63"
  shows "inv env t \<Longrightarrow> length (m_buckets t) = 2 ^ m \<Longrightarrow> distinct (map fst xs) \<Longrightarrow>
    (\<forall>x\<in>set xs. fst x \<noteq> m_empty_key t \<and> fst x \<notin> fst ` entries t) \<Longrightarrow>
    2 * round_to_float (length (occupied_slots t) + length xs) \<le> 2 ^ m \<Longrightarrow>
    2 ^ m \<le> fuel \<Longrightarrow>
    \<exists>t'. insert_range env fuel t xs = Some (Inr t') \<and> inv env t'
       \<and> length (m_buckets t') = 2 ^ m \<and> m_empty_key t' = m_empty_key t
       \<and> entries t' = entries t \<union> set xs
       \<and> length (occupied_slots t') = length (occupied_slots t) + length xs"
proof (induction xs arbitrary: t)
  case Nil
  then show ?case by simp
next
  case (Cons x xs)
  let ?c = "length (occupied_slots t)"
  have k: "fst x \<noteq> m_empty_key t" and nin: "fst x \<notin> fst ` entries t" using Cons.prems(4) by simp_all
  have "round_to_float (Suc ?c) \<le> round_to_float (?c + length (x # xs))"
    by (intro round_to_float_mono) simp
  then have load: "2 * round_to_float (Suc ?c) \<le> length (m_buckets t)"
    using Cons.prems(2,5) by simp
  have fuel: "length (m_buckets t) \<le> fuel" using Cons.prems(2,6) by simp
  from emplace_impl_stay [OF Cons.prems(1,2) cap k load fuel, of "snd x"] nin
  obtain t1 it ins where t1: "emplace_impl env fuel t (fst x) (snd x) = Some (Inr (t1, it, ins))"
    "inv env t1" "length (m_buckets t1) = length (m_buckets t)" "m_empty_key t1 = m_empty_key t"
    "entries t1 = insert x (entries t)" "length (occupied_slots t1) = Suc ?c"
    by auto
  have d: "distinct (map fst xs)" using Cons.prems(3) by simp
  have fresh: "\<forall>y\<in>set xs. fst y \<noteq> m_empty_key t1 \<and> fst y \<notin> fst ` entries t1"
  proof
    fix y assume y: "y \<in> set xs"
    then have "fst y \<in> fst ` set xs" by (rule imageI)
    moreover have "fst x \<notin> fst ` set xs" using Cons.prems(3) by simp
    ultimately have "fst y \<noteq> fst x" by metis
    moreover have "fst y \<noteq> m_empty_key t \<and> fst y \<notin> fst ` entries t" using Cons.prems(4) y by simp
    ultimately show "fst y \<noteq> m_empty_key t1 \<and> fst y \<notin> fst ` entries t1"
      using t1(4,5) by auto
  qed
  have l: "2 * round_to_float (length (occupied_slots t1) + length xs) \<le> 2 ^ m"
    using Cons.prems(5) t1(6) by simp
  from Cons.IH [OF t1(2) _ d fresh l Cons.prems(6)] t1(3) Cons.prems(2)
  obtain t' where t': "insert_range env fuel t1 xs = Some (Inr t')" "inv env t'"
    "length (m_buckets t') = 2 ^ m" "m_empty_key t' = m_empty_key t1"
    "entries t' = entries t1 \<union> set xs"
    "length (occupied_slots t') = length (occupied_slots t1) + length xs"
    by auto
  have "insert_range env fuel t (x # xs) = Some (Inr t')"
    using t1(1) t'(1) by (simp add: bind_result_def)
  then show ?case using t' t1 by simp
qed


lemma distinct_map_filter_nth:
  "(\<forall>i<length xs. \<forall>j<length xs. P (xs ! i) \<longrightarrow> f (xs ! i) = f (xs ! j) \<longrightarrow> i = j) \<Longrightarrow>
   distinct (map f (filter P xs))"
proof (induction xs)
  case Nil
  then show ?case by simp
next
  case (Cons a as)
  have tl: "\<forall>i<length as. \<forall>j<length as. P (as ! i) \<longrightarrow> f (as ! i) = f (as ! j) \<longrightarrow> i = j"
  proof (intro allI impI)
    fix i j assume "i < length as" "j < length as" "P (as ! i)" "f (as ! i) = f (as ! j)"
    with Cons.prems [rule_format, of "Suc i" "Suc j"] show "i = j" by simp
  qed
  have hd: "f a \<notin> f ` set as" if "P a"
  proof
    assume "f a \<in> f ` set as"
    then obtain j where "j < length as" "f a = f (as ! j)" by (auto simp: in_set_conv_nth)
    with Cons.prems [rule_format, of 0 "Suc j"] that show False by simp
  qed
  show ?case using Cons.IH [OF tl] hd by auto
qed

lemma unique_keys_distinct:
  assumes "unique_keys t"
  shows "distinct (map fst (occupied_slots t))"
  unfolding occupied_slots_def
  using assms by (intro distinct_map_filter_nth) (simp add: unique_keys_def occupied_def)

lemma unat_max: "unat (max a b :: size_t) = max (unat a) (unat b)"
  by (simp add: max_def word_le_nat_alt)

lemma size_by_load:
  assumes "unat (m_size t) = c" and "2 * round_to_float c < 2 ^ 64"
  shows "size_t_of_float (float_of_size_t (size_hm t) / max_load_factor t)
         = Inr (word_of_nat (2 * round_to_float c))"
proof -
  have "float_of_size_t (size_hm t) / max_load_factor t = real (2 * round_to_float c)"
    using assms(1)
    by (simp add: float_of_size_t_def size_hm_def max_load_factor_def DEFAULT_MAX_LOAD_FACTOR_def)
  moreover have "real (2 * round_to_float c) < 2 ^ 64"
    using assms(2) by (metis of_nat_less_iff of_nat_numeral of_nat_power)
  ultimately show ?thesis by (simp only: size_t_of_float_def if_True floor_of_nat nat_int)
qed

lemma rehash_unfold:
  assumes "inv env t"
  shows "rehash env (Suc fuel) t count =
     (case compute_closest_capacity (ndebug env) (requested t count) of
        Inl e \<Rightarrow> Some (Inl e)
      | Inr r \<Rightarrow> hash_map_copy env fuel t r)"
proof -
  let ?c = "length (occupied_slots t)"
  have "2 * round_to_float ?c \<le> 2 ^ 63"
    using assms inv_capacity_bound [OF assms] by (simp add: inv_def)
  then have "2 * round_to_float ?c < 2 ^ 64" by simp
  moreover have "unat (m_size t) = ?c" using assms by (simp add: inv_def)
  ultimately show ?thesis
    by (simp add: rehash.simps size_by_load requested_def)
qed

lemma unat_requested:
  assumes "inv env t"
  shows "unat (requested t count)
         = max (max 8 (unat count)) (2 * round_to_float (length (occupied_slots t)))"
proof -
  have "2 * round_to_float (length (occupied_slots t)) \<le> 2 ^ 63"
    using assms inv_capacity_bound [OF assms] by (simp add: inv_def)
  then have lt: "2 * round_to_float (length (occupied_slots t)) < 2 ^ LENGTH(64)" by simp
  have "unat (word_of_nat (2 * round_to_float (length (occupied_slots t))) :: size_t)
      = 2 * round_to_float (length (occupied_slots t))"
    by (simp only: unat_of_nat mod_less [OF lt])
  then show ?thesis by (simp add: requested_def unat_max minimum_capacity_def)
qed

lemma hash_map_copy_fresh:
  assumes i: "inv env t" and k: "k \<le> 63"
    and load: "2 * round_to_float (length (occupied_slots t)) \<le> 2 ^ k"
    and fits: "2 ^ k \<le> max_size env" and fuel: "2 ^ k \<le> fuel"
  shows "\<exists>t'. hash_map_copy env fuel t (2 ^ k) = Some (Inr t') \<and> inv env t'
       \<and> length (m_buckets t') = 2 ^ k \<and> m_empty_key t' = m_empty_key t
       \<and> entries t' = entries t
       \<and> length (occupied_slots t') = length (occupied_slots t)"
proof -
  let ?t0 = "\<lparr>m_empty_key = m_empty_key t,
      m_buckets = replicate (2 ^ k) (m_empty_key t, mapped_init env), m_size = 0\<rparr>"
  have c: "hash_map_ctor env (2 ^ k) (m_empty_key t) = Inr ?t0"
    using fits k by (simp add: hash_map_ctor_def compute_closest_capacity_idem unat_two_power)
  from hash_map_ctor_inv [OF c] have t0: "inv env ?t0" "occupied_slots ?t0 = []" by simp_all
  have e0: "entries ?t0 = {}" using t0(2) by (simp add: entries_def)
  have d: "distinct (map fst (occupied_slots t))"
    using i by (intro unique_keys_distinct) (simp add: inv_def)
  have fresh: "\<forall>x\<in>set (occupied_slots t). fst x \<noteq> m_empty_key ?t0 \<and> fst x \<notin> fst ` entries ?t0"
    by (simp add: e0 occupied_slots_def)
  have l: "2 * round_to_float (length (occupied_slots ?t0) + length (occupied_slots t)) \<le> 2 ^ k"
    using load t0(2) by simp
  from insert_range_fresh [OF k t0(1) _ d fresh l fuel]
  obtain t' where t': "insert_range env fuel ?t0 (occupied_slots t) = Some (Inr t')" "inv env t'"
    "length (m_buckets t') = 2 ^ k" "m_empty_key t' = m_empty_key ?t0"
    "entries t' = entries ?t0 \<union> set (occupied_slots t)"
    "length (occupied_slots t') = length (occupied_slots ?t0) + length (occupied_slots t)"
    by auto
  have "hash_map_copy env fuel t (2 ^ k) = Some (Inr t')"
    using c t'(1) by (simp add: hash_map_copy.simps occupied_slots_def)
  then show ?thesis using t' e0 t0(2) by (simp add: entries_def)
qed

section \<open>More fuel changes no result\<close>

lemma find_probe_mono:
  "find_probe fuel t key idx = Some r \<Longrightarrow> fuel \<le> fuel' \<Longrightarrow> find_probe fuel' t key idx = Some r"
proof (induction fuel arbitrary: fuel' idx)
  case 0
  then show ?case by simp
next
  case (Suc fuel)
  from Suc.prems(2) obtain g where g: "fuel' = Suc g" "fuel \<le> g" by (cases fuel') simp_all
  show ?case using Suc.prems(1) Suc.IH [OF _ g(2)] unfolding g(1)
    by (simp split: if_splits)
qed

lemma emplace_probe_mono:
  "emplace_probe fuel t key val idx = Some r \<Longrightarrow> fuel \<le> fuel' \<Longrightarrow>
   emplace_probe fuel' t key val idx = Some r"
proof (induction fuel arbitrary: fuel' idx)
  case 0
  then show ?case by simp
next
  case (Suc fuel)
  from Suc.prems(2) obtain g where g: "fuel' = Suc g" "fuel \<le> g" by (cases fuel') simp_all
  show ?case using Suc.prems(1) Suc.IH [OF _ g(2)] unfolding g(1)
    by (simp split: if_splits)
qed

lemma erase_shift_mono:
  "erase_shift env fuel t bucket idx = Some r \<Longrightarrow> fuel \<le> fuel' \<Longrightarrow>
   erase_shift env fuel' t bucket idx = Some r"
proof (induction fuel arbitrary: fuel' t bucket idx)
  case 0
  then show ?case by simp
next
  case (Suc fuel)
  from Suc.prems(2) obtain g where g: "fuel' = Suc g" "fuel \<le> g" by (cases fuel') simp_all
  show ?case using Suc.prems(1) Suc.IH [OF _ g(2)] unfolding g(1)
    by (simp add: Let_def split: if_splits)
qed

lemma bind_result_Some:
  "bind_result m f = Some r \<longleftrightarrow>
     (\<exists>e. m = Some (Inl e) \<and> r = Inl e) \<or> (\<exists>x. m = Some (Inr x) \<and> f x = Some r)"
  by (auto simp: bind_result_def split: option.splits sum.splits)

lemma bind_result_mono:
  assumes "bind_result m f = Some r"
    and "\<And>x. m = Some x \<Longrightarrow> m' = Some x"
    and "\<And>y. f y = Some r \<Longrightarrow> f' y = Some r"
  shows "bind_result m' f' = Some r"
proof (cases m)
  case None
  then show ?thesis using assms(1) by (simp add: bind_result_def)
next
  case (Some x)
  then have m': "m' = Some x" by (rule assms(2))
  show ?thesis
  proof (cases x)
    case (Inl e)
    then show ?thesis using assms(1) Some m' by (simp add: bind_result_def)
  next
    case (Inr y)
    then have "f y = Some r" using assms(1) Some by (simp add: bind_result_def)
    then have "f' y = Some r" by (rule assms(3))
    then show ?thesis using Inr m' by (simp add: bind_result_def)
  qed
qed

lemma check_for_rehash_mono:
  assumes "\<And>t c r. rehash env fuel t c = Some r \<Longrightarrow> rehash env fuel' t c = Some r"
    and "check_for_rehash env fuel t = Some r"
  shows "check_for_rehash env fuel' t = Some r"
  using assms by (simp add: check_for_rehash.simps split: if_splits)

lemma emplace_impl_mono:
  assumes "\<And>t c r. rehash env fuel t c = Some r \<Longrightarrow> rehash env fuel' t c = Some r"
    and "fuel \<le> fuel'"
    and "emplace_impl env fuel t key val = Some r"
  shows "emplace_impl env fuel' t key val = Some r"
proof (cases "\<not> ndebug env \<and> m_empty_key t = key")
  case True
  then show ?thesis using assms(3) by (simp add: emplace_impl.simps)
next
  case False
  have e: "emplace_impl env f t key val = bind_result (check_for_rehash env f t)
      (\<lambda>t'. emplace_probe f t' key val (key_to_idx env t' key))" for f
    using False by (subst emplace_impl.simps) (rule if_not_P)
  have "bind_result (check_for_rehash env fuel t)
      (\<lambda>t'. emplace_probe fuel t' key val (key_to_idx env t' key)) = Some r"
    using assms(3) by (simp only: e)
  then have "bind_result (check_for_rehash env fuel' t)
      (\<lambda>t'. emplace_probe fuel' t' key val (key_to_idx env t' key)) = Some r"
  proof (rule bind_result_mono)
    fix x assume "check_for_rehash env fuel t = Some x"
    with assms(1) show "check_for_rehash env fuel' t = Some x" by (rule check_for_rehash_mono)
  next
    fix y assume "emplace_probe fuel y key val (key_to_idx env y key) = Some r"
    then show "emplace_probe fuel' y key val (key_to_idx env y key) = Some r"
      using assms(2) by (rule emplace_probe_mono)
  qed
  then show ?thesis by (simp only: e)
qed

lemma insert_range_mono:
  assumes "\<And>t c r. rehash env fuel t c = Some r \<Longrightarrow> rehash env fuel' t c = Some r"
    and "fuel \<le> fuel'"
  shows "insert_range env fuel t xs = Some r \<Longrightarrow> insert_range env fuel' t xs = Some r"
proof (induction xs arbitrary: t)
  case Nil
  then show ?case by simp
next
  case (Cons x xs)
  from Cons.prems have "bind_result (emplace_impl env fuel t (fst x) (snd x))
       (\<lambda>r. insert_range env fuel (fst r) xs) = Some r" by simp
  then have "bind_result (emplace_impl env fuel' t (fst x) (snd x))
       (\<lambda>r. insert_range env fuel' (fst r) xs) = Some r"
  proof (rule bind_result_mono)
    fix y assume "emplace_impl env fuel t (fst x) (snd x) = Some y"
    with assms show "emplace_impl env fuel' t (fst x) (snd x) = Some y"
      by (rule emplace_impl_mono)
  next
    fix y assume "insert_range env fuel (fst y) xs = Some r"
    then show "insert_range env fuel' (fst y) xs = Some r" by (rule Cons.IH)
  qed
  then show ?case by simp
qed

lemma hash_map_copy_mono:
  assumes "\<And>t c r. rehash env fuel t c = Some r \<Longrightarrow> rehash env fuel' t c = Some r"
    and "fuel \<le> fuel'"
    and "hash_map_copy env fuel t c = Some r"
  shows "hash_map_copy env fuel' t c = Some r"
proof (cases "hash_map_ctor env c (m_empty_key t)")
  case (Inl e)
  then have "hash_map_copy env f t c = Some (Inl e)" for f by (simp add: hash_map_copy.simps)
  then show ?thesis using assms(3) by simp
next
  case (Inr t0)
  then have "insert_range env fuel t0 (filter (\<lambda>b. fst b \<noteq> m_empty_key t) (m_buckets t)) = Some r"
    using assms(3) by (simp add: hash_map_copy.simps)
  with assms(1,2)
  have "insert_range env fuel' t0 (filter (\<lambda>b. fst b \<noteq> m_empty_key t) (m_buckets t)) = Some r"
    by (rule insert_range_mono)
  then show ?thesis using Inr by (simp add: hash_map_copy.simps)
qed

lemma rehash_mono:
  "rehash env fuel t c = Some r \<Longrightarrow> fuel \<le> fuel' \<Longrightarrow> rehash env fuel' t c = Some r"
proof (induction fuel arbitrary: fuel' t c r)
  case 0
  then show ?case by (simp add: rehash.simps)
next
  case (Suc fuel)
  from Suc.prems(2) obtain g where g: "fuel' = Suc g" "fuel \<le> g" by (cases fuel') simp_all
  have ih: "rehash env g t' c' = Some r'" if "rehash env fuel t' c' = Some r'" for t' c' r'
    using that g(2) by (rule Suc.IH)
  have h: "hash_map_copy env g t' c' = Some r'" if "hash_map_copy env fuel t' c' = Some r'"
    for t' c' r'
    using ih g(2) that by (rule hash_map_copy_mono)
  show ?case
  proof (cases "size_t_of_float (float_of_size_t (size_hm t) / max_load_factor t)")
    case (Inl e)
    have "rehash env (Suc f) t c = Some (Inl e)" for f
      by (simp only: rehash.simps Inl sum.case)
    then show ?thesis using Suc.prems(1) unfolding g(1) by simp
  next
    case by_load: (Inr b)
    show ?thesis
    proof (cases "compute_closest_capacity (ndebug env) (max (max minimum_capacity c) b)")
      case (Inl e)
      have "rehash env (Suc f) t c = Some (Inl e)" for f
        by (simp only: rehash.simps by_load Inl sum.case)
      then show ?thesis using Suc.prems(1) unfolding g(1) by simp
    next
      case (Inr c')
      have e: "rehash env (Suc f) t c = hash_map_copy env f t c'" for f
        by (simp only: rehash.simps by_load Inr sum.case)
      have "hash_map_copy env fuel t c' = Some r" using Suc.prems(1) by (simp only: e)
      then have "hash_map_copy env g t c' = Some r" by (rule h)
      then show ?thesis unfolding g(1) by (simp only: e)
    qed
  qed
qed

lemma emplace_impl_fuel:
  assumes "emplace_impl env fuel t key val = Some r" and "fuel \<le> fuel'"
  shows "emplace_impl env fuel' t key val = Some r"
proof -
  have "rehash env fuel' t' c = Some r'" if "rehash env fuel t' c = Some r'" for t' c r'
    using that assms(2) by (rule rehash_mono)
  then show ?thesis using assms(2,1) by (rule emplace_impl_mono)
qed

lemma insert_range_fuel:
  assumes "insert_range env fuel t xs = Some r" and "fuel \<le> fuel'"
  shows "insert_range env fuel' t xs = Some r"
proof -
  have "rehash env fuel' t' c = Some r'" if "rehash env fuel t' c = Some r'" for t' c r'
    using that assms(2) by (rule rehash_mono)
  then show ?thesis using assms(2,1) by (rule insert_range_mono)
qed

lemma hash_map_copy_fuel:
  assumes "hash_map_copy env fuel t c = Some r" and "fuel \<le> fuel'"
  shows "hash_map_copy env fuel' t c = Some r"
proof -
  have "rehash env fuel' t' c' = Some r'" if "rehash env fuel t' c' = Some r'" for t' c' r'
    using that assms(2) by (rule rehash_mono)
  then show ?thesis using assms(2,1) by (rule hash_map_copy_mono)
qed

lemma find_impl_fuel:
  assumes "find_impl env fuel t key = Some r" and "fuel \<le> fuel'"
  shows "find_impl env fuel' t key = Some r"
proof (cases "\<not> ndebug env \<and> m_empty_key t = key")
  case True
  then show ?thesis using assms(1) by (simp add: find_impl_def)
next
  case False
  then have "find_probe fuel t key (key_to_idx env t key) = Some r"
    using assms(1) by (auto simp: find_impl_def)
  then have "find_probe fuel' t key (key_to_idx env t key) = Some r"
    using assms(2) by (rule find_probe_mono)
  then show ?thesis using False by (auto simp: find_impl_def)
qed

lemma erase_impl_it_fuel:
  "erase_impl_it env fuel t it = Some r \<Longrightarrow> fuel \<le> fuel' \<Longrightarrow>
   erase_impl_it env fuel' t it = Some r"
  unfolding erase_impl_it_def by (rule erase_shift_mono)

lemma erase_impl_key_fuel:
  assumes "erase_impl_key env fuel t key = Some r" and "fuel \<le> fuel'"
  shows "erase_impl_key env fuel' t key = Some r"
proof (cases "find_impl env fuel t key")
  case None
  then show ?thesis using assms(1) by (simp add: erase_impl_key_def bind_result_def)
next
  case (Some x)
  note f = find_impl_fuel [OF Some assms(2)]
  show ?thesis
  proof (cases x)
    case (Inl e)
    then show ?thesis using assms(1) Some f by (simp add: erase_impl_key_def bind_result_def)
  next
    case (Inr it)
    show ?thesis
    proof (cases "it = end_it t")
      case True
      then show ?thesis using assms(1) Some f Inr by (simp add: erase_impl_key_def bind_result_def)
    next
      case False
      then have "bind_result (erase_impl_it env fuel t it) (\<lambda>t'. Some (Inr (t', 1))) = Some r"
        using assms(1) Some Inr by (simp add: erase_impl_key_def bind_result_def)
      then have "bind_result (erase_impl_it env fuel' t it) (\<lambda>t'. Some (Inr (t', 1))) = Some r"
      proof (rule bind_result_mono)
        fix x assume "erase_impl_it env fuel t it = Some x"
        then show "erase_impl_it env fuel' t it = Some x" using assms(2) by (rule erase_impl_it_fuel)
      qed
      then show ?thesis using False f Inr by (simp add: erase_impl_key_def bind_result_def)
    qed
  qed
qed

section \<open>Rehash\<close>

lemma compute_closest_capacity_lower:
  assumes "compute_closest_capacity nd w = Inr r"
  shows "min (unat w) (2 ^ 63) \<le> unat r"
proof -
  consider "unat w = 0" | "0 < unat w" "unat w \<le> 2 ^ 63" | "2 ^ 63 < unat w" by linarith
  then show ?thesis
  proof cases
    case 1
    then show ?thesis by simp
  next
    case 2
    from compute_closest_capacity_pow2 [OF this, of nd] assms
    obtain k where "k \<le> 63" "r = 2 ^ k" "unat w \<le> 2 ^ k" by auto
    then show ?thesis by (simp add: unat_two_power)
  next
    case 3
    from compute_closest_capacity_overflow [OF this] assms
    have "r = 2 ^ 63" by (cases nd) simp_all
    then show ?thesis by simp
  qed
qed

lemma rehash_capacity:
  assumes i: "inv env t" and c: "compute_closest_capacity (ndebug env) (requested t count) = Inr r"
  shows "\<exists>k\<le>63. r = 2 ^ k \<and> 8 \<le> (2::nat) ^ k
           \<and> 2 * round_to_float (length (occupied_slots t)) \<le> 2 ^ k
           \<and> min (unat count) (2 ^ 63) \<le> 2 ^ k"
proof -
  let ?c = "length (occupied_slots t)"
  have l: "2 * round_to_float ?c \<le> 2 ^ 63"
    using i inv_capacity_bound [OF i] by (simp add: inv_def)
  have "min (unat (requested t count)) (2 ^ 63) \<le> unat r"
    using c by (rule compute_closest_capacity_lower)
  then have lo: "min (max (max 8 (unat count)) (2 * round_to_float ?c)) (2 ^ 63) \<le> unat r"
    by (simp only: unat_requested [OF i])
  then have r8: "8 \<le> unat r" by simp
  from compute_closest_capacity_result [OF c] consider "r = 0" | k where "k \<le> 63" "r = 2 ^ k"
    by blast
  then show ?thesis
  proof cases
    case 1
    with r8 show ?thesis by simp
  next
    case 2
    have u: "unat r = 2 ^ k" using 2 by (simp add: unat_two_power)
    have "8 \<le> (2::nat) ^ k" using r8 u by simp
    moreover have "2 * round_to_float ?c \<le> 2 ^ k" using lo l u by simp
    moreover have "min (unat count) (2 ^ 63) \<le> 2 ^ k" using lo u by simp
    ultimately show ?thesis using 2 by blast
  qed
qed

lemma hash_map_copy_fits:
  assumes "hash_map_copy env fuel t (2 ^ k) = Some (Inr t')" and "k \<le> 63"
  shows "2 ^ k \<le> max_size env"
proof (rule ccontr)
  assume "\<not> 2 ^ k \<le> max_size env"
  then have "hash_map_ctor env (2 ^ k) (m_empty_key t) = Inl Length_error"
    using assms(2) by (simp add: hash_map_ctor_def compute_closest_capacity_idem unat_two_power)
  then show False using assms(1) by (simp add: hash_map_copy.simps)
qed

lemma rehash_sound:
  assumes i: "inv env t" and r: "rehash env fuel t count = Some (Inr t')"
  shows "inv env t' \<and> entries t' = entries t \<and> m_empty_key t' = m_empty_key t
       \<and> length (occupied_slots t') = length (occupied_slots t)
       \<and> (\<exists>k\<le>63. compute_closest_capacity (ndebug env) (requested t count) = Inr (2 ^ k)
              \<and> length (m_buckets t') = 2 ^ k \<and> 8 \<le> (2::nat) ^ k
              \<and> min (unat count) (2 ^ 63) \<le> 2 ^ k)"
proof -
  from r obtain f where f: "fuel = Suc f" by (cases fuel) (simp_all add: rehash.simps)
  obtain w where w: "compute_closest_capacity (ndebug env) (requested t count) = Inr w"
    using r unfolding f rehash_unfold [OF i] by (auto split: sum.splits)
  from rehash_capacity [OF i w] obtain k where k: "k \<le> 63" "w = 2 ^ k" "8 \<le> (2::nat) ^ k"
    "2 * round_to_float (length (occupied_slots t)) \<le> 2 ^ k" "min (unat count) (2 ^ 63) \<le> 2 ^ k"
    by blast
  have c: "hash_map_copy env f t (2 ^ k) = Some (Inr t')"
    using r w k(2) unfolding f rehash_unfold [OF i] by simp
  have fits: "2 ^ k \<le> max_size env" using c k(1) by (rule hash_map_copy_fits)
  have "hash_map_copy env (max f (2 ^ k)) t (2 ^ k) = Some (Inr t')"
    using c by (rule hash_map_copy_fuel) simp
  moreover from hash_map_copy_fresh [OF i k(1,4) fits, of "max f (2 ^ k)"]
  obtain t'' where "hash_map_copy env (max f (2 ^ k)) t (2 ^ k) = Some (Inr t'')" "inv env t''"
    "length (m_buckets t'') = 2 ^ k" "m_empty_key t'' = m_empty_key t" "entries t'' = entries t"
    "length (occupied_slots t'') = length (occupied_slots t)"
    by auto
  ultimately show ?thesis using w k by auto
qed

lemma rehash_total:
  assumes i: "inv env t" and fuel: "max_size env < fuel"
  shows "\<exists>r. rehash env fuel t count = Some r"
proof -
  from fuel obtain f where f: "fuel = Suc f" "max_size env \<le> f" by (cases fuel) simp_all
  show ?thesis
  proof (cases "compute_closest_capacity (ndebug env) (requested t count)")
    case (Inl e)
    then show ?thesis unfolding f(1) rehash_unfold [OF i] by simp
  next
    case (Inr w)
    from rehash_capacity [OF i Inr] obtain k where k: "k \<le> 63" "w = 2 ^ k"
      "2 * round_to_float (length (occupied_slots t)) \<le> 2 ^ k" by blast
    show ?thesis
    proof (cases "2 ^ k \<le> max_size env")
      case True
      then have "2 ^ k \<le> f" using f(2) by simp
      from hash_map_copy_fresh [OF i k(1,3) True this]
      show ?thesis unfolding f(1) rehash_unfold [OF i] using Inr k(2) by auto
    next
      case False
      then have "hash_map_ctor env (2 ^ k) (m_empty_key t) = Inl Length_error"
        using k(1) by (simp add: hash_map_ctor_def compute_closest_capacity_idem unat_two_power)
      then show ?thesis unfolding f(1) rehash_unfold [OF i] using Inr k(2)
        by (simp add: hash_map_copy.simps)
    qed
  qed
qed

section \<open>Insertion\<close>

lemma rehash_at:
  assumes i: "inv env t"
    and c: "compute_closest_capacity (ndebug env) (requested t count) = Inr (2 ^ k)" "k \<le> 63"
    and fuel: "max_size env < fuel"
  shows "if 2 ^ k \<le> max_size env
         then \<exists>t'. rehash env fuel t count = Some (Inr t') \<and> length (m_buckets t') = 2 ^ k
         else rehash env fuel t count = Some (Inl Length_error)"
proof -
  from fuel obtain f where f: "fuel = Suc f" "max_size env \<le> f" by (cases fuel) simp_all
  from rehash_capacity [OF i c(1)] c(2) have
    l: "2 * round_to_float (length (occupied_slots t)) \<le> 2 ^ k"
    by (auto simp: unat_two_power dest!: arg_cong [where f = unat])
  show ?thesis
  proof (cases "2 ^ k \<le> max_size env")
    case True
    then have "2 ^ k \<le> f" using f(2) by simp
    from hash_map_copy_fresh [OF i c(2) l True this]
    show ?thesis unfolding f(1) rehash_unfold [OF i] using c(1) True by auto
  next
    case False
    then have "hash_map_ctor env (2 ^ k) (m_empty_key t) = Inl Length_error"
      using c(2) by (simp add: hash_map_ctor_def compute_closest_capacity_idem unat_two_power)
    then show ?thesis unfolding f(1) rehash_unfold [OF i] using c(1) False
      by (simp add: hash_map_copy.simps)
  qed
qed

text \<open>The capacity requested by the growth in \<^verbatim>\<open>check_for_rehash\<close>.\<close>

lemma requested_growth:
  assumes i: "inv env t" and v: "max_size env < 2 ^ 62"
  shows "\<exists>j\<le>63. requested t (push_bit 2 (bucket_count t)) = 2 ^ j
           \<and> (2::nat) ^ j = max 8 (4 * length (m_buckets t))"
proof -
  let ?n = "length (m_buckets t)"
  let ?c = "length (occupied_slots t)"
  have n62: "?n < 2 ^ 62" using i v by (simp add: inv_def)
  have l: "2 * round_to_float ?c \<le> ?n" using i by (simp add: inv_def)
  have b: "unat (bucket_count t) = ?n" using n62 by (intro unat_bucket_count) simp
  have "unat (push_bit 2 (bucket_count t)) = (unat (bucket_count t) * 4) mod 2 ^ 64"
    by (simp add: push_bit_eq_mult unat_word_ariths)
  then have "unat (push_bit 2 (bucket_count t)) = 4 * ?n"
    using n62 by (simp add: b)
  then have u: "unat (requested t (push_bit 2 (bucket_count t))) = max 8 (4 * ?n)"
    using l by (simp add: unat_requested [OF i])
  have "\<exists>j\<le>63. (2::nat) ^ j = max 8 (4 * ?n)"
  proof (cases "?n \<le> 2")
    case True
    then have "max 8 (4 * ?n) = (2::nat) ^ 3" by simp
    then show ?thesis by (intro exI [of _ 3]) simp
  next
    case False
    then obtain m where m: "m \<le> 63" "?n = 2 ^ m" using i by (auto simp: inv_def)
    have "m < 62"
    proof (rule ccontr)
      assume "\<not> m < 62"
      then have "(2::nat) ^ 62 \<le> 2 ^ m" by (intro power_increasing) simp_all
      then show False using n62 m by simp
    qed
    moreover have "max 8 (4 * ?n) = (2::nat) ^ (m + 2)" using False m by (simp add: power_add)
    ultimately show ?thesis by (intro exI [of _ "m + 2"]) simp
  qed
  then obtain j where j: "j \<le> 63" "(2::nat) ^ j = max 8 (4 * ?n)" by blast
  have "unat (requested t (push_bit 2 (bucket_count t))) = unat (2 ^ j :: size_t)"
    using u j by (simp add: unat_two_power)
  then have "requested t (push_bit 2 (bucket_count t)) = 2 ^ j" by (simp only: word_unat_eq_iff)
  then show ?thesis using j by blast
qed

lemma grown_load:
  assumes i: "inv env t"
  shows "2 * round_to_float (Suc (length (occupied_slots t))) \<le> max 8 (4 * length (m_buckets t))"
proof (cases "length (m_buckets t) = 0")
  case True
  then have "length (occupied_slots t) = 0" using i by (simp add: inv_def round_to_float_zero)
  moreover have "round_to_float (Suc 0) = Suc 0" by (intro round_to_float_small) simp
  ultimately show ?thesis by simp
next
  case False
  then obtain m where m: "m \<le> 63" "length (m_buckets t) = 2 ^ m" using i by (auto simp: inv_def)
  have "Suc (length (occupied_slots t)) \<le> 2 ^ m"
    using inv_count_less [OF i m(2)] m(2) by simp
  then have "round_to_float (Suc (length (occupied_slots t))) \<le> round_to_float (2 ^ m)"
    by (rule round_to_float_mono)
  then show ?thesis using m(2) by (simp add: round_to_float_two_power)
qed

lemma emplace_impl_unfold:
  assumes i: "inv env t" and k: "key \<noteq> m_empty_key t"
  shows "emplace_impl env fuel t key val =
     bind_result
       (if length (m_buckets t) < 2 * round_to_float (Suc (length (occupied_slots t)))
        then rehash env fuel t (push_bit 2 (bucket_count t)) else Some (Inr t))
       (\<lambda>t'. emplace_probe fuel t' key val (key_to_idx env t' key))"
proof -
  have cl: "length (occupied_slots t) < 2 ^ 63"
  proof (cases "length (m_buckets t) = 0")
    case True
    then show ?thesis using i by (simp add: inv_def round_to_float_zero)
  next
    case False
    then obtain m where "length (m_buckets t) = 2 ^ m" using i by (auto simp: inv_def)
    from inv_count_less [OF i this] inv_capacity_bound [OF i] show ?thesis by simp
  qed
  have "unat (m_size t) = length (occupied_slots t)" using i by (simp add: inv_def)
  from growth_check [OF _ this cl] i
  have "float_of_size_t (size_hm t + 1) > float_of_size_t (bucket_count t) * max_load_factor t
      \<longleftrightarrow> length (m_buckets t) < 2 * round_to_float (Suc (length (occupied_slots t)))"
    by (simp add: inv_def)
  then show ?thesis using k
    by (simp only: emplace_impl.simps check_for_rehash.simps) auto
qed

lemma emplace_probe_settled:
  assumes i: "inv env t" and cap: "length (m_buckets t) = 2 ^ m" "m \<le> 63"
    and k: "key \<noteq> m_empty_key t"
    and load: "2 * round_to_float (Suc (length (occupied_slots t))) \<le> length (m_buckets t)"
  shows "emplace_probe fuel t key val (key_to_idx env t key) = emplace_impl env fuel t key val"
  using load by (simp add: emplace_impl_unfold [OF i k] bind_result_def)


text \<open>What \<^verbatim>\<open>emplace_impl\<close> returns, with enough fuel for the largest table.\<close>

lemma emplace_impl_big:
  assumes i: "inv env t" and v: "max_size env < 2 ^ 62" and k: "key \<noteq> m_empty_key t"
    and fuel: "max_size env < fuel"
  shows "(length (m_buckets t) < 2 * round_to_float (Suc (length (occupied_slots t)))
          \<and> max_size env < max 8 (4 * length (m_buckets t))
          \<and> emplace_impl env fuel t key val = Some (Inl Length_error))
       \<or> (\<exists>t' it ins. emplace_impl env fuel t key val = Some (Inr (t', it, ins))
            \<and> inv env t' \<and> m_empty_key t' = m_empty_key t
            \<and> length (m_buckets t') =
                (if length (m_buckets t) < 2 * round_to_float (Suc (length (occupied_slots t)))
                 then max 8 (4 * length (m_buckets t)) else length (m_buckets t))
            \<and> unat it < length (m_buckets t') \<and> fst (m_buckets t' ! unat it) = key
            \<and> (if key \<in> fst ` entries t
                then \<not> ins \<and> entries t' = entries t
                   \<and> length (occupied_slots t') = length (occupied_slots t)
                else ins \<and> entries t' = insert (key, val) (entries t)
                   \<and> length (occupied_slots t') = Suc (length (occupied_slots t))
                   \<and> snd (m_buckets t' ! unat it) = val))"
proof (cases "length (m_buckets t) < 2 * round_to_float (Suc (length (occupied_slots t)))")
  case False
  then have load: "2 * round_to_float (Suc (length (occupied_slots t))) \<le> length (m_buckets t)"
    by simp
  have "length (m_buckets t) \<noteq> 0"
  proof
    assume "length (m_buckets t) = 0"
    with load have "round_to_float (Suc (length (occupied_slots t))) = 0" by simp
    then show False by (simp add: round_to_float_zero)
  qed
  then obtain m where m: "m \<le> 63" "length (m_buckets t) = 2 ^ m" using i by (auto simp: inv_def)
  have f: "length (m_buckets t) \<le> fuel" using i fuel by (simp add: inv_def)
  from emplace_impl_stay [OF i m(2,1) k load f, of val]
  obtain t' it ins where r: "emplace_impl env fuel t key val = Some (Inr (t', it, ins))"
    "inv env t'" "length (m_buckets t') = length (m_buckets t)" "m_empty_key t' = m_empty_key t"
    "unat it < length (m_buckets t)" "fst (m_buckets t' ! unat it) = key"
    "if key \<in> fst ` entries t then \<not> ins \<and> t' = t
     else ins \<and> entries t' = insert (key, val) (entries t)
        \<and> length (occupied_slots t') = Suc (length (occupied_slots t))
        \<and> snd (m_buckets t' ! unat it) = val"
    by blast
  have "if key \<in> fst ` entries t
        then \<not> ins \<and> entries t' = entries t
           \<and> length (occupied_slots t') = length (occupied_slots t)
        else ins \<and> entries t' = insert (key, val) (entries t)
           \<and> length (occupied_slots t') = Suc (length (occupied_slots t))
           \<and> snd (m_buckets t' ! unat it) = val"
    using r(7) by (auto split: if_splits)
  then show ?thesis using False r(1-6)
    by (intro disjI2 exI [of _ t'] exI [of _ it] exI [of _ ins]) simp
next
  case True
  let ?g = "max 8 (4 * length (m_buckets t))"
  from requested_growth [OF i v] obtain j where j: "j \<le> 63"
    "requested t (push_bit 2 (bucket_count t)) = 2 ^ j" "(2::nat) ^ j = ?g" by blast
  have c: "compute_closest_capacity (ndebug env) (requested t (push_bit 2 (bucket_count t))) = Inr (2 ^ j)"
    unfolding j(2) using j(1) by (rule compute_closest_capacity_idem)
  have u: "emplace_impl env fuel t key val =
     bind_result (rehash env fuel t (push_bit 2 (bucket_count t)))
       (\<lambda>t'. emplace_probe fuel t' key val (key_to_idx env t' key))"
    using True by (simp add: emplace_impl_unfold [OF i k])
  show ?thesis
  proof (cases "2 ^ j \<le> max_size env")
    case False
    with rehash_at [OF i c j(1) fuel]
    have "rehash env fuel t (push_bit 2 (bucket_count t)) = Some (Inl Length_error)" by simp
    then have "emplace_impl env fuel t key val = Some (Inl Length_error)"
      by (simp add: u bind_result_def)
    moreover have "max_size env < ?g" using False j(3) by linarith
    ultimately show ?thesis using True by blast
  next
    case fits: True
    with rehash_at [OF i c j(1) fuel]
    obtain t1 where t1: "rehash env fuel t (push_bit 2 (bucket_count t)) = Some (Inr t1)"
      "length (m_buckets t1) = 2 ^ j" by auto
    from rehash_sound [OF i t1(1)] have s: "inv env t1" "entries t1 = entries t"
      "m_empty_key t1 = m_empty_key t" "length (occupied_slots t1) = length (occupied_slots t)"
      by simp_all
    have load: "2 * round_to_float (Suc (length (occupied_slots t1))) \<le> length (m_buckets t1)"
      using grown_load [OF i] s(4) t1(2) j(3) by simp
    have k1: "key \<noteq> m_empty_key t1" using k s(3) by simp
    have f: "length (m_buckets t1) \<le> fuel" using fits fuel t1(2) by simp
    have "emplace_impl env fuel t key val = emplace_impl env fuel t1 key val"
      using emplace_probe_settled [OF s(1) t1(2) j(1) k1 load, of fuel val]
      by (simp add: u t1(1) bind_result_def)
    moreover from emplace_impl_stay [OF s(1) t1(2) j(1) k1 load f, of val]
    obtain t' it ins where r: "emplace_impl env fuel t1 key val = Some (Inr (t', it, ins))"
      "inv env t'" "length (m_buckets t') = length (m_buckets t1)" "m_empty_key t' = m_empty_key t1"
      "unat it < length (m_buckets t1)" "fst (m_buckets t' ! unat it) = key"
      "if key \<in> fst ` entries t1 then \<not> ins \<and> t' = t1
       else ins \<and> entries t' = insert (key, val) (entries t1)
          \<and> length (occupied_slots t') = Suc (length (occupied_slots t1))
          \<and> snd (m_buckets t' ! unat it) = val"
      by blast
    have "if key \<in> fst ` entries t
          then \<not> ins \<and> entries t' = entries t
             \<and> length (occupied_slots t') = length (occupied_slots t)
          else ins \<and> entries t' = insert (key, val) (entries t)
             \<and> length (occupied_slots t') = Suc (length (occupied_slots t))
             \<and> snd (m_buckets t' ! unat it) = val"
      using r(7) s(2,4) by (auto split: if_splits)
    ultimately show ?thesis using True r(1-6) s(3) t1(2) j(3)
      by (intro disjI2 exI [of _ t'] exI [of _ it] exI [of _ ins]) simp
  qed
qed

lemma emplace_impl_total:
  assumes "inv env t" and "max_size env < 2 ^ 62" and "key \<noteq> m_empty_key t"
    and "max_size env < fuel"
  shows "\<exists>r. emplace_impl env fuel t key val = Some r"
  using emplace_impl_big [OF assms, of val] by blast

lemma emplace_impl_correct:
  assumes i: "inv env t" and v: "max_size env < 2 ^ 62" and k: "key \<noteq> m_empty_key t"
    and r: "emplace_impl env fuel t key val = Some (Inr (t', it, ins))"
  shows "inv env t' \<and> m_empty_key t' = m_empty_key t
       \<and> length (m_buckets t') =
           (if length (m_buckets t) < 2 * round_to_float (Suc (length (occupied_slots t)))
            then max 8 (4 * length (m_buckets t)) else length (m_buckets t))
       \<and> unat it < length (m_buckets t') \<and> fst (m_buckets t' ! unat it) = key
       \<and> (if key \<in> fst ` entries t
           then \<not> ins \<and> entries t' = entries t
              \<and> length (occupied_slots t') = length (occupied_slots t)
           else ins \<and> entries t' = insert (key, val) (entries t)
              \<and> length (occupied_slots t') = Suc (length (occupied_slots t))
              \<and> snd (m_buckets t' ! unat it) = val)"
proof -
  let ?F = "max fuel (Suc (max_size env))"
  have "emplace_impl env ?F t key val = Some (Inr (t', it, ins))"
    using r by (rule emplace_impl_fuel) simp
  moreover have "max_size env < ?F" by simp
  from emplace_impl_big [OF i v k this, of val]
  have "(emplace_impl env ?F t key val = Some (Inl Length_error))
       \<or> (\<exists>t' it ins. emplace_impl env ?F t key val = Some (Inr (t', it, ins))
            \<and> inv env t' \<and> m_empty_key t' = m_empty_key t
            \<and> length (m_buckets t') =
                (if length (m_buckets t) < 2 * round_to_float (Suc (length (occupied_slots t)))
                 then max 8 (4 * length (m_buckets t)) else length (m_buckets t))
            \<and> unat it < length (m_buckets t') \<and> fst (m_buckets t' ! unat it) = key
            \<and> (if key \<in> fst ` entries t
                then \<not> ins \<and> entries t' = entries t
                   \<and> length (occupied_slots t') = length (occupied_slots t)
                else ins \<and> entries t' = insert (key, val) (entries t)
                   \<and> length (occupied_slots t') = Suc (length (occupied_slots t))
                   \<and> snd (m_buckets t' ! unat it) = val))"
    by blast
  ultimately show ?thesis by (elim disjE exE conjE) simp_all
qed

section \<open>Backward-shift deletion\<close>

lemma cdist_inj:
  "a < n \<Longrightarrow> b < n \<Longrightarrow> c < n \<Longrightarrow> cdist n a b = cdist n a c \<Longrightarrow> b = c"
  by (auto simp add: cdist_if split: if_splits)

lemma mod_lt: "p < n \<Longrightarrow> x mod n < (n::nat)"
  by (cases n) simp_all

lemma Suc_mod_if: "a < n \<Longrightarrow> Suc a mod n = (if Suc a < n then Suc a else 0)"
  by (auto simp: not_less less_Suc_eq_le dest: le_antisym)

lemma cdist_next:
  assumes "a < n" "1 < n"
  shows "cdist n a (Suc a mod n) = 1"
  using cdist_step [OF assms(1), of 1] assms by simp

lemma next_neq: "a < n \<Longrightarrow> 1 < n \<Longrightarrow> Suc a mod n \<noteq> a"
  by (simp add: Suc_mod_if)

lemma cdist_after_next:
  assumes "j < n" "e < n" "j \<noteq> e" "1 < n"
  shows "cdist n (Suc j mod n) e = cdist n j e - 1"
proof -
  have j': "Suc j mod n < n" using assms(1) by (rule mod_lt)
  have "cdist n j e \<noteq> 0" using assms by (simp add: cdist_eq_0)
  then have "cdist n j (Suc j mod n) \<le> cdist n j e"
    using cdist_next [OF assms(1,4)] by simp
  from cdist_split [OF assms(1) j' assms(2) this] cdist_next [OF assms(1,4)]
  show ?thesis by simp
qed

lemma erase_inv_init:
  assumes u: "unique_keys t" and c: "contiguous env t"
    and p: "p < length (m_buckets t)" "occupied t p" and n: "1 < length (m_buckets t)"
  shows "erase_inv env t p (Suc p mod length (m_buckets t))"
proof -
  let ?n = "length (m_buckets t)"
  have j: "Suc p mod ?n < ?n" using p(1) by (rule mod_lt)
  have d1: "cdist ?n p (Suc p mod ?n) = 1" using p(1) n by (rule cdist_next)
  have "cdist ?n p (Suc p mod ?n) \<le> cdist ?n p q" if "q < ?n" "q \<noteq> p" for q
  proof -
    have "cdist ?n p q \<noteq> 0" using that p(1) by (simp add: cdist_eq_0)
    then show ?thesis using d1 by simp
  qed
  moreover have "Suc p mod ?n \<noteq> p" using p(1) n by (rule next_neq)
  ultimately show ?thesis
    unfolding erase_inv_def slot_key_def
    using u c p(1) j d1 by (simp add: unique_keys_def contiguous_def)
qed


lemma erase_inv_room:
  assumes i: "erase_inv env t b j" and o: "occupied t j"
    and e: "e < length (m_buckets t)" "e \<noteq> b" "\<not> occupied t e"
  shows "Suc (cdist (length (m_buckets t)) b j) < length (m_buckets t)"
proof (rule ccontr)
  let ?n = "length (m_buckets t)"
  assume "\<not> Suc (cdist ?n b j) < ?n"
  moreover have b: "b < ?n" and j: "j < ?n" using i by (simp_all add: erase_inv_def)
  ultimately have top: "cdist ?n b j = ?n - 1" using cdist_less [OF b j] by simp
  have de: "cdist ?n b e < ?n" "cdist ?n b e \<noteq> 0"
    using cdist_less [OF b e(1)] e(1,2) b by (simp_all add: cdist_eq_0)
  have be: "(b + cdist ?n b e) mod ?n = e" using b e(1) by (rule step_cdist)
  show False
  proof (cases "cdist ?n b e < cdist ?n b j")
    case True
    then have "occupied t ((b + cdist ?n b e) mod ?n)"
      using i de(2) by (simp add: erase_inv_def)
    then show False using be e(3) by simp
  next
    case False
    then have "cdist ?n b e = cdist ?n b j" using de(1) top by simp
    then have "e = j" using b e(1) j by (intro cdist_inj [of b ?n e j]) simp_all
    then show False using o e(3) by simp
  qed
qed

lemma erase_inv_stay:
  assumes i: "erase_inv env t b j" and o: "occupied t j"
    and keep: "\<not> cdist (length (m_buckets t)) (home env t (slot_key t j)) b
               < cdist (length (m_buckets t)) (home env t (slot_key t j)) j"
    and e: "e < length (m_buckets t)" "e \<noteq> b" "\<not> occupied t e"
  shows "erase_inv env t b (Suc j mod length (m_buckets t))"
proof -
  let ?n = "length (m_buckets t)"
  let ?j' = "Suc j mod ?n"
  have b: "b < ?n" and j: "j < ?n" and bj: "b \<noteq> j" using i by (simp_all add: erase_inv_def)
  have room: "Suc (cdist ?n b j) < ?n" using i o e by (rule erase_inv_room)
  then have n1: "1 < ?n" by simp
  have j': "?j' < ?n" using j by (rule mod_lt)
  have "cdist ?n b j + cdist ?n j ?j' < ?n" using room cdist_next [OF j n1] by simp
  from cdist_join [OF b j j' this] have d: "cdist ?n b ?j' = Suc (cdist ?n b j)"
    using cdist_next [OF j n1] by simp
  then have "cdist ?n b ?j' \<noteq> 0" by simp
  then have bj': "b \<noteq> ?j'" using b j' by (simp add: cdist_eq_0)
  have run: "occupied t ((b + d) mod ?n)" if "0 < d" "d < cdist ?n b ?j'" for d
  proof (cases "d < cdist ?n b j")
    case True
    then show ?thesis using i that(1) by (simp add: erase_inv_def)
  next
    case False
    then have "d = cdist ?n b j" using that(2) d by simp
    then have "(b + d) mod ?n = j" using b j by (simp add: step_cdist)
    then show ?thesis using o by simp
  qed
  have pend: "cdist ?n b ?j' \<le> cdist ?n b p"
    if "p < ?n" "p \<noteq> b" "occupied t p"
      "cdist ?n (home env t (slot_key t p)) b < cdist ?n (home env t (slot_key t p)) p" for p
  proof -
    have le: "cdist ?n b j \<le> cdist ?n b p" using i that by (simp add: erase_inv_def)
    have "cdist ?n b j \<noteq> cdist ?n b p"
    proof
      assume "cdist ?n b j = cdist ?n b p"
      then have "j = p" using b j that(1) by (intro cdist_inj [of b ?n j p]) simp_all
      then show False using that(4) keep by simp
    qed
    then show ?thesis using le d by simp
  qed
  show ?thesis
    unfolding erase_inv_def
  proof (intro conjI)
    show "b < ?n" by (rule b)
    show "?j' < ?n" by (rule j')
    show "b \<noteq> ?j'" by (rule bj')
    show "\<forall>d. 0 < d \<and> d < cdist ?n b ?j' \<longrightarrow> occupied t ((b + d) mod ?n)"
      using run by blast
    show "\<forall>p<?n. p \<noteq> b \<and> occupied t p
             \<and> cdist ?n (home env t (slot_key t p)) b < cdist ?n (home env t (slot_key t p)) p \<longrightarrow>
             cdist ?n b ?j' \<le> cdist ?n b p"
      using pend by blast
  qed (use i in \<open>simp_all add: erase_inv_def\<close>)
qed


lemma move_occupied:
  assumes "b < length (m_buckets t)" "occupied t j" "i < length (m_buckets t)"
  shows "occupied (t\<lparr>m_buckets := (m_buckets t)[b := m_buckets t ! j]\<rparr>) i
         \<longleftrightarrow> i = b \<or> occupied t i"
  using assms by (auto simp: occupied_def nth_list_update)

lemma move_slot_key:
  assumes "b < length (m_buckets t)" "i < length (m_buckets t)"
  shows "slot_key (t\<lparr>m_buckets := (m_buckets t)[b := m_buckets t ! j]\<rparr>) i
         = (if i = b then slot_key t j else slot_key t i)"
  using assms by (simp add: slot_key_def nth_list_update)

lemma erase_inv_move:
  assumes i: "erase_inv env t b j" and o: "occupied t j"
    and move: "cdist (length (m_buckets t)) (home env t (slot_key t j)) b
               < cdist (length (m_buckets t)) (home env t (slot_key t j)) j"
  shows "erase_inv env (t\<lparr>m_buckets := (m_buckets t)[b := m_buckets t ! j]\<rparr>) j
           (Suc j mod length (m_buckets t))"
proof -
  let ?n = "length (m_buckets t)"
  let ?t2 = "t\<lparr>m_buckets := (m_buckets t)[b := m_buckets t ! j]\<rparr>"
  let ?j' = "Suc j mod ?n"
  let ?h = "\<lambda>p. home env t (slot_key t p)"
  have b: "b < ?n" and j: "j < ?n" and bj: "b \<noteq> j" using i by (simp_all add: erase_inv_def)
  have n1: "1 < ?n" using b j bj by simp
  have j': "?j' < ?n" using j by (rule mod_lt)
  have jj': "j \<noteq> ?j'" using next_neq [OF j n1] by simp
  have d1: "cdist ?n j ?j' = 1" using j n1 by (rule cdist_next)
  have len: "length (m_buckets ?t2) = ?n" by simp
  have hc: "home env ?t2 x = home env t x" for x by (rule home_cong) simp
  have oc: "occupied ?t2 p \<longleftrightarrow> p = b \<or> occupied t p" if "p < ?n" for p
    using b o that by (rule move_occupied)
  have sk: "slot_key ?t2 p = (if p = b then slot_key t j else slot_key t p)" if "p < ?n" for p
    using b that by (rule move_slot_key)
  have paths: "(?h p + d) mod ?n = b \<or> occupied t ((?h p + d) mod ?n)"
    if "p < ?n" "p \<noteq> b" "occupied t p" "d < cdist ?n (?h p) p" for p d
    using i that by (simp add: erase_inv_def)
  have uniq: "p = q" if "p < ?n" "q < ?n" "p \<noteq> b" "q \<noteq> b" "occupied t p"
    "slot_key t p = slot_key t q" for p q
    using i that by (simp add: erase_inv_def)
  have P: "(home env ?t2 (slot_key ?t2 p) + d) mod ?n = j
        \<or> occupied ?t2 ((home env ?t2 (slot_key ?t2 p) + d) mod ?n)"
    if p: "p < ?n" "p \<noteq> j" "occupied ?t2 p"
      and d: "d < cdist ?n (home env ?t2 (slot_key ?t2 p)) p" for p d
  proof (cases "p = b")
    case True
    then have h: "home env ?t2 (slot_key ?t2 p) = ?h j" using p(1) by (simp add: hc sk)
    have "d < cdist ?n (?h j) j" using d move True h by simp
    from paths [OF j _ o this] bj
    have "(?h j + d) mod ?n = b \<or> occupied t ((?h j + d) mod ?n)" by simp
    moreover have "(?h j + d) mod ?n < ?n" using j by (rule mod_lt)
    ultimately show ?thesis using oc h by auto
  next
    case False
    then have h: "home env ?t2 (slot_key ?t2 p) = ?h p" using p(1) by (simp add: hc sk)
    have op: "occupied t p" using p(1,3) False oc by simp
    have "(?h p + d) mod ?n = b \<or> occupied t ((?h p + d) mod ?n)"
      using paths [OF p(1) False op] d h by simp
    moreover have "(?h p + d) mod ?n < ?n" using j by (rule mod_lt)
    ultimately show ?thesis using oc h by auto
  qed
  have Q: "cdist ?n j ?j' \<le> cdist ?n j p" if "p < ?n" "p \<noteq> j" for p
  proof -
    have "cdist ?n j p \<noteq> 0" using that j by (simp add: cdist_eq_0)
    then show ?thesis using d1 by simp
  qed
  have U: "p = q" if p: "p < ?n" "q < ?n" "p \<noteq> j" "q \<noteq> j" "occupied ?t2 p"
    "slot_key ?t2 p = slot_key ?t2 q" for p q
  proof (cases "p = b")
    case pb: True
    show ?thesis
    proof (rule ccontr)
      assume "p \<noteq> q"
      then have "q \<noteq> b" using pb by simp
      then have "slot_key t j = slot_key t q" using p(1,2,6) pb by (simp add: sk)
      from uniq [OF j p(2) _ \<open>q \<noteq> b\<close> o this] bj p(4) show False by simp
    qed
  next
    case pb: False
    then have op: "occupied t p" using p(1,5) oc by simp
    show ?thesis
    proof (cases "q = b")
      case True
      then have "slot_key t p = slot_key t j" using p(1,2,6) pb by (simp add: sk)
      from uniq [OF p(1) j pb _ op this] bj p(3) show ?thesis by simp
    next
      case False
      then have "slot_key t p = slot_key t q" using p(1,2,6) pb by (simp add: sk)
      from uniq [OF p(1,2) pb False op this] show ?thesis .
    qed
  qed
  show ?thesis
    unfolding erase_inv_def len
  proof (intro conjI)
    show "j < ?n" by (rule j)
    show "?j' < ?n" by (rule j')
    show "j \<noteq> ?j'" by (rule jj')
    show "\<forall>d. 0 < d \<and> d < cdist ?n j ?j' \<longrightarrow> occupied ?t2 ((j + d) mod ?n)"
      using d1 by simp
    show "\<forall>p<?n. p \<noteq> j \<and> occupied ?t2 p \<longrightarrow>
             (\<forall>d<cdist ?n (home env ?t2 (slot_key ?t2 p)) p.
                (home env ?t2 (slot_key ?t2 p) + d) mod ?n = j
                \<or> occupied ?t2 ((home env ?t2 (slot_key ?t2 p) + d) mod ?n))"
      using P by blast
    show "\<forall>p<?n. p \<noteq> j \<and> occupied ?t2 p
             \<and> cdist ?n (home env ?t2 (slot_key ?t2 p)) j
                 < cdist ?n (home env ?t2 (slot_key ?t2 p)) p \<longrightarrow>
             cdist ?n j ?j' \<le> cdist ?n j p"
      using Q by blast
    show "\<forall>p<?n. \<forall>q<?n.
             p \<noteq> j \<and> q \<noteq> j \<and> occupied ?t2 p \<and> slot_key ?t2 p = slot_key ?t2 q \<longrightarrow> p = q"
      using U by blast
  qed
qed


lemma vacate_occupied:
  assumes "b < length (m_buckets t)" "i < length (m_buckets t)"
  shows "occupied (t\<lparr>m_buckets := (m_buckets t)[b := (m_empty_key t, v)], m_size := s\<rparr>) i
         \<longleftrightarrow> i \<noteq> b \<and> occupied t i"
  using assms by (auto simp: occupied_def nth_list_update)

lemma erase_inv_final:
  assumes cap: "length (m_buckets t) = 2 ^ m" "m \<le> 63"
    and i: "erase_inv env t b j" and nj: "\<not> occupied t j"
  shows "contiguous env (t\<lparr>m_buckets := (m_buckets t)[b := (m_empty_key t, v)], m_size := s\<rparr>)
       \<and> unique_keys (t\<lparr>m_buckets := (m_buckets t)[b := (m_empty_key t, v)], m_size := s\<rparr>)"
proof
  let ?n = "length (m_buckets t)"
  let ?t' = "t\<lparr>m_buckets := (m_buckets t)[b := (m_empty_key t, v)], m_size := s\<rparr>"
  let ?h = "\<lambda>p. home env t (slot_key t p)"
  have b: "b < ?n" and j: "j < ?n" and bj: "b \<noteq> j" using i by (simp_all add: erase_inv_def)
  have hc: "home env ?t' x = home env t x" for x by (rule home_cong) simp
  have oc: "occupied ?t' p \<longleftrightarrow> p \<noteq> b \<and> occupied t p" if "p < ?n" for p
    using b that by (rule vacate_occupied)
  have paths: "(?h p + d) mod ?n = b \<or> occupied t ((?h p + d) mod ?n)"
    if "p < ?n" "p \<noteq> b" "occupied t p" "d < cdist ?n (?h p) p" for p d
    using i that by (simp add: erase_inv_def)
  have pend: "cdist ?n b j \<le> cdist ?n b p"
    if "p < ?n" "p \<noteq> b" "occupied t p" "cdist ?n (?h p) b < cdist ?n (?h p) p" for p
    using i that by (simp add: erase_inv_def)
  have clear: "(?h p + d) mod ?n \<noteq> b"
    if p: "p < ?n" "p \<noteq> b" "occupied t p" and d: "d < cdist ?n (?h p) p" for p d
  proof
    assume q: "(?h p + d) mod ?n = b"
    have h: "?h p < ?n" using cap by (rule home_less)
    have dn: "d < ?n" using d cdist_less [OF h p(1)] by simp
    have hb: "cdist ?n (?h p) b = d" using cdist_step [OF h dn] q by simp
    then have lt: "cdist ?n (?h p) b < cdist ?n (?h p) p" using d by simp
    have le: "cdist ?n b j \<le> cdist ?n b p" using p lt by (rule pend)
    have sp: "cdist ?n (?h p) p = cdist ?n (?h p) b + cdist ?n b p"
      using h b p(1) lt by (intro cdist_split) simp_all
    have "cdist ?n b j \<noteq> cdist ?n b p"
    proof
      assume "cdist ?n b j = cdist ?n b p"
      then have "j = p" using b j p(1) by (intro cdist_inj [of b ?n j p]) simp_all
      then show False using nj p(3) by simp
    qed
    then have lt': "cdist ?n (?h p) b + cdist ?n b j < cdist ?n (?h p) p" using le sp by simp
    then have "cdist ?n (?h p) b + cdist ?n b j < ?n" using cdist_less [OF h p(1)] by simp
    from cdist_join [OF h b j this]
    have hj: "cdist ?n (?h p) j = cdist ?n (?h p) b + cdist ?n b j" .
    have "(?h p + cdist ?n (?h p) j) mod ?n = j" using h j by (rule step_cdist)
    moreover have "cdist ?n (?h p) j < cdist ?n (?h p) p" using hj lt' by simp
    ultimately have "j = b \<or> occupied t j" using paths [OF p, of "cdist ?n (?h p) j"] by simp
    then show False using bj nj by simp
  qed
  show "contiguous env ?t'"
    unfolding contiguous_def
  proof (intro allI impI)
    fix p d
    assume p: "p < length (m_buckets ?t')" "occupied ?t' p"
      and d: "d < cdist (length (m_buckets ?t')) (home env ?t' (fst (m_buckets ?t' ! p))) p"
    have pn: "p < ?n" using p(1) by simp
    then have pb: "p \<noteq> b" and op: "occupied t p" using p(2) oc by simp_all
    have d': "d < cdist ?n (?h p) p" using d pb by (simp add: hc slot_key_def)
    have q: "(?h p + d) mod ?n < ?n" using pn by (rule mod_lt)
    have "occupied t ((?h p + d) mod ?n)" "(?h p + d) mod ?n \<noteq> b"
      using paths [OF pn pb op d'] clear [OF pn pb op d'] by simp_all
    then have "occupied ?t' ((?h p + d) mod ?n)" using oc [OF q] by simp
    then show "occupied ?t' ((home env ?t' (fst (m_buckets ?t' ! p)) + d) mod length (m_buckets ?t'))"
      using pb by (simp add: hc slot_key_def)
  qed
  show "unique_keys ?t'"
    unfolding unique_keys_def
  proof (intro allI impI)
    fix p q
    assume p: "p < length (m_buckets ?t')" and q: "q < length (m_buckets ?t')"
      and o: "occupied ?t' p" and e: "fst (m_buckets ?t' ! p) = fst (m_buckets ?t' ! q)"
    have pn: "p < ?n" and qn: "q < ?n" using p q by simp_all
    have pb: "p \<noteq> b" and op: "occupied t p" using o oc pn by simp_all
    have qb: "q \<noteq> b"
    proof
      assume "q = b"
      then have "fst (m_buckets ?t' ! p) = m_empty_key t" using e b by simp
      then show False using o by (simp add: occupied_def)
    qed
    have "slot_key t p = slot_key t q" using e pb qb by (simp add: slot_key_def)
    then show "p = q" using i pn qn pb qb op by (simp add: erase_inv_def)
  qed
qed


lemma others_iff:
  "x \<in> others t b \<longleftrightarrow>
     (\<exists>i. i < length (m_buckets t) \<and> i \<noteq> b \<and> occupied t i \<and> x = m_buckets t ! i)"
  unfolding others_def by blast

lemma entries_iff:
  "x \<in> entries t \<longleftrightarrow> (\<exists>i. i < length (m_buckets t) \<and> occupied t i \<and> x = m_buckets t ! i)"
  unfolding entries_nth by blast

lemma others_move:
  assumes b: "b < length (m_buckets t)" and j: "j < length (m_buckets t)" and bj: "b \<noteq> j"
    and o: "occupied t j"
  shows "others (t\<lparr>m_buckets := (m_buckets t)[b := m_buckets t ! j]\<rparr>) j = others t b"
proof -
  let ?n = "length (m_buckets t)"
  let ?t2 = "t\<lparr>m_buckets := (m_buckets t)[b := m_buckets t ! j]\<rparr>"
  have oc: "occupied ?t2 p \<longleftrightarrow> p = b \<or> occupied t p" if "p < ?n" for p
    using b o that by (rule move_occupied)
  show ?thesis
  proof (intro set_eqI iffI)
    fix x assume "x \<in> others ?t2 j"
    then obtain i where i: "i < ?n" "i \<noteq> j" "occupied ?t2 i" "x = m_buckets ?t2 ! i"
      unfolding others_iff by auto
    show "x \<in> others t b"
    proof (cases "i = b")
      case True
      then have "x = m_buckets t ! j" using i(4) b by simp
      then have "j < ?n \<and> j \<noteq> b \<and> occupied t j \<and> x = m_buckets t ! j" using j bj o by simp
      then show ?thesis unfolding others_iff by (rule exI)
    next
      case False
      then have "x = m_buckets t ! i" "occupied t i" using i oc by simp_all
      then have "i < ?n \<and> i \<noteq> b \<and> occupied t i \<and> x = m_buckets t ! i" using i(1) False by simp
      then show ?thesis unfolding others_iff by (rule exI)
    qed
  next
    fix x assume "x \<in> others t b"
    then obtain i where i: "i < ?n" "i \<noteq> b" "occupied t i" "x = m_buckets t ! i"
      unfolding others_iff by auto
    show "x \<in> others ?t2 j"
    proof (cases "i = j")
      case True
      then have "x = m_buckets ?t2 ! b" using i(4) b by simp
      moreover have "occupied ?t2 b" using oc [OF b] by simp
      ultimately have "b < length (m_buckets ?t2) \<and> b \<noteq> j \<and> occupied ?t2 b
          \<and> x = m_buckets ?t2 ! b" using b bj by simp
      then show ?thesis unfolding others_iff by (rule exI)
    next
      case False
      then have "x = m_buckets ?t2 ! i" "occupied ?t2 i" using i oc by simp_all
      then have "i < length (m_buckets ?t2) \<and> i \<noteq> j \<and> occupied ?t2 i
          \<and> x = m_buckets ?t2 ! i" using i(1) False by simp
      then show ?thesis unfolding others_iff by (rule exI)
    qed
  qed
qed

lemma card_swap:
  assumes "finite A" "j \<in> A" "b \<notin> A"
  shows "card (insert b (A - {j})) = card A"
proof -
  have "finite (A - {j})" using assms(1) by (rule finite_Diff)
  moreover have "b \<notin> A - {j}" using assms(3) by blast
  ultimately have "card (insert b (A - {j})) = Suc (card (A - {j}))"
    by (rule card_insert_disjoint)
  also have "\<dots> = card A" using assms(1,2) by (rule card.remove [symmetric])
  finally show ?thesis .
qed

lemma others_count_move:
  assumes b: "b < length (m_buckets t)" and j: "j < length (m_buckets t)" and bj: "b \<noteq> j"
    and o: "occupied t j"
  shows "others_count (t\<lparr>m_buckets := (m_buckets t)[b := m_buckets t ! j]\<rparr>) j
         = others_count t b"
proof -
  let ?n = "length (m_buckets t)"
  let ?t2 = "t\<lparr>m_buckets := (m_buckets t)[b := m_buckets t ! j]\<rparr>"
  let ?A = "{i. i < ?n \<and> i \<noteq> b \<and> occupied t i}"
  let ?B = "{i. i < ?n \<and> i \<noteq> j \<and> occupied ?t2 i}"
  have "(i \<in> ?B) = (i \<in> insert b (?A - {j}))" for i
  proof (cases "i < ?n")
    case True
    have "occupied ?t2 i \<longleftrightarrow> i = b \<or> occupied t i" using b o True by (rule move_occupied)
    then have "(i \<noteq> j \<and> occupied ?t2 i) = (i = b \<or> i \<noteq> b \<and> occupied t i \<and> i \<noteq> j)"
      using bj by blast
    then show ?thesis using True b by (simp only: mem_Collect_eq insert_iff Diff_iff singleton_iff) blast
  next
    case False
    then have "i \<noteq> b" using b by blast
    then show ?thesis using False by (simp only: mem_Collect_eq insert_iff Diff_iff singleton_iff) blast
  qed
  then have eq: "?B = insert b (?A - {j})" by (rule set_eqI)
  have "finite ?A" by simp
  moreover have "j \<in> ?A" using j bj o by simp
  moreover have "b \<notin> ?A" by simp
  ultimately have "card (insert b (?A - {j})) = card ?A" by (rule card_swap)
  then have "card ?B = card ?A" by (simp only: eq)
  moreover have "others_count ?t2 j = card ?B" by (simp add: others_count_def)
  moreover have "others_count t b = card ?A" by (simp add: others_count_def)
  ultimately show ?thesis by simp
qed

lemma vacate_entries:
  assumes b: "b < length (m_buckets t)"
  shows "entries (t\<lparr>m_buckets := (m_buckets t)[b := (m_empty_key t, v)], m_size := s\<rparr>)
         = others t b"
proof (intro set_eqI iffI)
  let ?n = "length (m_buckets t)"
  let ?t' = "t\<lparr>m_buckets := (m_buckets t)[b := (m_empty_key t, v)], m_size := s\<rparr>"
  have oc: "occupied ?t' p \<longleftrightarrow> p \<noteq> b \<and> occupied t p" if "p < ?n" for p
    using b that by (rule vacate_occupied)
  {
    fix x assume "x \<in> entries ?t'"
    then obtain i where i: "i < ?n" "occupied ?t' i" "x = m_buckets ?t' ! i"
      unfolding entries_iff by auto
    then have "i < ?n \<and> i \<noteq> b \<and> occupied t i \<and> x = m_buckets t ! i" using oc by simp
    then show "x \<in> others t b" unfolding others_iff by (rule exI)
  next
    fix x assume "x \<in> others t b"
    then obtain i where i: "i < ?n" "i \<noteq> b" "occupied t i" "x = m_buckets t ! i"
      unfolding others_iff by auto
    then have "i < length (m_buckets ?t') \<and> occupied ?t' i \<and> x = m_buckets ?t' ! i"
      using oc by simp
    then show "x \<in> entries ?t'" unfolding entries_iff by (rule exI)
  }
qed

lemma vacate_count:
  assumes b: "b < length (m_buckets t)"
  shows "length (occupied_slots (t\<lparr>m_buckets := (m_buckets t)[b := (m_empty_key t, v)],
            m_size := s\<rparr>)) = others_count t b"
proof -
  let ?n = "length (m_buckets t)"
  let ?t' = "t\<lparr>m_buckets := (m_buckets t)[b := (m_empty_key t, v)], m_size := s\<rparr>"
  have oc: "occupied ?t' p \<longleftrightarrow> p \<noteq> b \<and> occupied t p" if "p < ?n" for p
    using b that by (rule vacate_occupied)
  have "i \<in> {i. i < length (m_buckets ?t') \<and> occupied ?t' i}
      \<longleftrightarrow> i \<in> {i. i < ?n \<and> i \<noteq> b \<and> occupied t i}" for i
  proof (cases "i < ?n")
    case True
    then show ?thesis using oc [OF True] by simp
  next
    case False
    then show ?thesis by simp
  qed
  then have "{i. i < length (m_buckets ?t') \<and> occupied ?t' i}
      = {i. i < ?n \<and> i \<noteq> b \<and> occupied t i}"
    by (rule set_eqI)
  then show ?thesis unfolding occupied_count others_count_def by simp
qed


lemma shift_condition:
  assumes cap: "length (m_buckets t) = 2 ^ m" "m \<le> 63"
    and b: "unat bucket < length (m_buckets t)" and j: "unat idx < length (m_buckets t)"
  shows "diff t bucket (key_to_idx env t key) < diff t idx (key_to_idx env t key)
         \<longleftrightarrow> cdist (length (m_buckets t)) (home env t key) (unat bucket)
             < cdist (length (m_buckets t)) (home env t key) (unat idx)"
proof -
  have h: "unat (key_to_idx env t key) < length (m_buckets t)"
    using home_less [OF cap, of env key] by (simp add: home_def)
  show ?thesis
    unfolding word_less_nat_alt unat_diff [OF cap b h] unat_diff [OF cap j h] home_def ..
qed

lemma erase_shift_correct:
  assumes m: "m \<le> 63"
  shows "length (m_buckets t) = 2 ^ m \<Longrightarrow> erase_inv env t b j \<Longrightarrow>
    unat bucket = b \<Longrightarrow> unat idx = j \<Longrightarrow>
    e < length (m_buckets t) \<Longrightarrow> e \<noteq> b \<Longrightarrow> \<not> occupied t e \<Longrightarrow>
    cdist (length (m_buckets t)) j e < fuel \<Longrightarrow>
    \<exists>t'. erase_shift env fuel t bucket idx = Some (Inr t')
       \<and> length (m_buckets t') = length (m_buckets t) \<and> m_empty_key t' = m_empty_key t
       \<and> m_size t' = m_size t - 1 \<and> unique_keys t' \<and> contiguous env t'
       \<and> entries t' = others t b \<and> length (occupied_slots t') = others_count t b"
proof (induction fuel arbitrary: t bucket idx b j)
  case 0
  then show ?case by simp
next
  case (Suc fuel)
  let ?n = "length (m_buckets t)"
  note cap = Suc.prems(1) m
  note inv = Suc.prems(2)
  have b: "b < ?n" and j: "j < ?n" and bj: "b \<noteq> j" using inv by (simp_all add: erase_inv_def)
  have ub: "unat bucket < ?n" and uj: "unat idx < ?n" using b j Suc.prems(3,4) by simp_all
  show ?case
  proof (cases "occupied t j")
    case False
    let ?t' = "t\<lparr>m_buckets := (m_buckets t)[b := (m_empty_key t, snd (m_buckets t ! b))],
                 m_size := m_size t - 1\<rparr>"
    have "erase_shift env (Suc fuel) t bucket idx = Some (Inr ?t')"
      using False ub uj Suc.prems(3,4) by (simp add: occupied_def)
    moreover have "contiguous env ?t' \<and> unique_keys ?t'"
      using cap inv False by (rule erase_inv_final)
    moreover have "entries ?t' = others t b" using b by (rule vacate_entries)
    moreover have "length (occupied_slots ?t') = others_count t b" using b by (rule vacate_count)
    ultimately show ?thesis by simp
  next
    case True
    let ?key = "slot_key t j"
    let ?h = "home env t ?key"
    let ?j' = "Suc j mod ?n"
    let ?next = "probe_next t idx"
    have ne: "fst (m_buckets t ! unat idx) \<noteq> m_empty_key t"
      using True Suc.prems(4) by (simp add: occupied_def)
    have n1: "1 < ?n" using b j bj by simp
    have je: "j \<noteq> e" using True Suc.prems(7) by blast
    have un: "unat ?next = ?j'" using unat_probe_next [OF cap, of idx] Suc.prems(4) by simp
    have "cdist ?n ?j' e = cdist ?n j e - 1" using j Suc.prems(5) je n1 by (rule cdist_after_next)
    moreover have "cdist ?n j e \<noteq> 0" using j Suc.prems(5) je by (simp add: cdist_eq_0)
    ultimately have fuel: "cdist ?n ?j' e < fuel" using Suc.prems(8) by simp
    have cond: "diff t bucket (key_to_idx env t (fst (m_buckets t ! unat idx)))
          < diff t idx (key_to_idx env t (fst (m_buckets t ! unat idx)))
        \<longleftrightarrow> cdist ?n ?h b < cdist ?n ?h j"
      using shift_condition [OF cap ub uj, of env "fst (m_buckets t ! unat idx)"] Suc.prems(3,4)
      by (simp add: slot_key_def)
    show ?thesis
    proof (cases "cdist ?n ?h b < cdist ?n ?h j")
      case move: True
      let ?t2 = "t\<lparr>m_buckets := (m_buckets t)[b := m_buckets t ! j]\<rparr>"
      have step: "erase_shift env (Suc fuel) t bucket idx = erase_shift env fuel ?t2 idx ?next"
        using ne ub uj cond move Suc.prems(3,4) by (simp add: Let_def)
      have i2: "erase_inv env ?t2 j (Suc j mod length (m_buckets ?t2))"
        using erase_inv_move [OF inv True move] by simp
      have ne2: "\<not> occupied ?t2 e"
        using move_occupied [OF b True Suc.prems(5)] Suc.prems(6,7) by simp
      have un2: "unat ?next = Suc j mod length (m_buckets ?t2)" using un by simp
      have "length (m_buckets ?t2) = 2 ^ m" using cap(1) by simp
      from Suc.IH [OF this i2 Suc.prems(4) un2 _ je [symmetric] ne2] Suc.prems(5) fuel
      obtain t' where t': "erase_shift env fuel ?t2 idx ?next = Some (Inr t')"
        "length (m_buckets t') = length (m_buckets ?t2)" "m_empty_key t' = m_empty_key ?t2"
        "m_size t' = m_size ?t2 - 1" "unique_keys t'" "contiguous env t'"
        "entries t' = others ?t2 j" "length (occupied_slots t') = others_count ?t2 j"
        by auto
      have "others ?t2 j = others t b" using b j bj True by (rule others_move)
      moreover have "others_count ?t2 j = others_count t b"
        using b j bj True by (rule others_count_move)
      ultimately show ?thesis using t' step by simp
    next
      case stay: False
      have step: "erase_shift env (Suc fuel) t bucket idx = erase_shift env fuel t bucket ?next"
        using ne ub uj cond stay Suc.prems(3,4) by (simp add: Let_def)
      have i2: "erase_inv env t b ?j'"
        using inv True stay Suc.prems(5,6,7) by (rule erase_inv_stay)
      from Suc.IH [OF cap(1) i2 Suc.prems(3) un Suc.prems(5,6,7) fuel]
      show ?thesis using step by simp
    qed
  qed
qed


lemma others_entries:
  assumes u: "unique_keys t" and p: "p < length (m_buckets t)" "occupied t p"
  shows "others t p = entries t - {m_buckets t ! p}"
proof (intro set_eqI iffI)
  fix x assume "x \<in> others t p"
  then obtain i where i: "i < length (m_buckets t)" "i \<noteq> p" "occupied t i" "x = m_buckets t ! i"
    unfolding others_iff by auto
  have "x \<noteq> m_buckets t ! p"
  proof
    assume "x = m_buckets t ! p"
    then have "fst (m_buckets t ! i) = fst (m_buckets t ! p)" using i(4) by simp
    then have "i = p" using u i(1,3) p(1) by (simp add: unique_keys_def)
    then show False using i(2) by simp
  qed
  moreover have "x \<in> entries t" unfolding entries_iff using i by blast
  ultimately show "x \<in> entries t - {m_buckets t ! p}" by simp
next
  fix x assume "x \<in> entries t - {m_buckets t ! p}"
  then have xe: "x \<in> entries t" and xp: "x \<noteq> m_buckets t ! p" by simp_all
  from xe obtain i where i: "i < length (m_buckets t)" "occupied t i" "x = m_buckets t ! i"
    unfolding entries_iff by blast
  then have "i \<noteq> p" using xp by blast
  then show "x \<in> others t p" unfolding others_iff using i by blast
qed

lemma others_count_less:
  assumes p: "p < length (m_buckets t)" "occupied t p"
  shows "others_count t p = length (occupied_slots t) - 1"
proof -
  let ?A = "{i. i < length (m_buckets t) \<and> occupied t i}"
  have "{i. i < length (m_buckets t) \<and> i \<noteq> p \<and> occupied t i} = ?A - {p}" by blast
  moreover have "finite ?A" by simp
  moreover have "p \<in> ?A" using p by simp
  ultimately show ?thesis
    unfolding others_count_def occupied_count by (simp only: card_Diff_singleton)
qed

lemma erase_impl_it_correct:
  assumes i: "inv env t" and cap: "length (m_buckets t) = 2 ^ m" "m \<le> 63"
    and p: "unat it < length (m_buckets t)" "occupied t (unat it)"
    and fuel: "length (m_buckets t) \<le> fuel"
  shows "\<exists>t'. erase_impl_it env fuel t it = Some (Inr t') \<and> inv env t'
       \<and> length (m_buckets t') = length (m_buckets t) \<and> m_empty_key t' = m_empty_key t
       \<and> entries t' = entries t - {m_buckets t ! unat it}
       \<and> length (occupied_slots t') = length (occupied_slots t) - 1"
proof -
  let ?n = "length (m_buckets t)"
  let ?p = "unat it"
  let ?c = "length (occupied_slots t)"
  have u: "unique_keys t" and c: "contiguous env t" using i by (simp_all add: inv_def)
  from inv_has_empty_slot [OF i cap(1)] obtain e where e: "e < ?n" "\<not> occupied t e" by blast
  have ep: "e \<noteq> ?p" using e(2) p(2) by blast
  then have n1: "1 < ?n" using e(1) p(1) by simp
  have init: "erase_inv env t ?p (Suc ?p mod ?n)" using u c p n1 by (rule erase_inv_init)
  have un: "unat (probe_next t it) = Suc ?p mod ?n" using unat_probe_next [OF cap, of it] by simp
  have "Suc ?p mod ?n < ?n" using p(1) by (rule mod_lt)
  then have "cdist ?n (Suc ?p mod ?n) e < ?n" using e(1) by (rule cdist_less)
  then have f: "cdist ?n (Suc ?p mod ?n) e < fuel" using fuel by simp
  from erase_shift_correct [OF cap(2,1) init refl un e(1) ep e(2) f]
  obtain t' where t': "erase_shift env fuel t it (probe_next t it) = Some (Inr t')"
    "length (m_buckets t') = ?n" "m_empty_key t' = m_empty_key t"
    "m_size t' = m_size t - 1" "unique_keys t'" "contiguous env t'"
    "entries t' = others t ?p" "length (occupied_slots t') = others_count t ?p"
    by blast
  have cnt: "length (occupied_slots t') = ?c - 1" using t'(8) others_count_less [OF p] by simp
  have c0: "?c \<noteq> 0"
  proof
    assume "?c = 0"
    then have "{i. i < ?n \<and> occupied t i} = {}" by (simp add: occupied_count)
    then show False using p by blast
  qed
  have s: "unat (m_size t) = ?c" using i by (simp add: inv_def)
  then have "m_size t \<noteq> 0" using c0 by auto
  then have "unat (m_size t - 1) = ?c - 1" using s by (simp add: unat_minus_one)
  then have sz: "unat (m_size t') = length (occupied_slots t')" using t'(4) cnt by simp
  have "round_to_float (?c - 1) \<le> round_to_float ?c" by (intro round_to_float_mono) simp
  then have load: "2 * round_to_float (length (occupied_slots t')) \<le> length (m_buckets t')"
    using i cnt t'(2) by (simp add: inv_def)
  have "inv env t'" using i t'(2,5,6) sz load unfolding inv_def by simp
  moreover have "entries t' = entries t - {m_buckets t ! ?p}"
    using t'(7) others_entries [OF u p] by simp
  ultimately show ?thesis using t' cnt by (simp add: erase_impl_it_def)
qed

lemma unat_end_it:
  assumes "length (m_buckets t) = 2 ^ m" "m \<le> 63"
  shows "unat (end_it t) = length (m_buckets t)"
  by (simp add: end_it_def assms(1) unat_two_power [OF assms(2)])

text \<open>What \<^verbatim>\<open>find_impl\<close> returns on a table that satisfies the invariant.\<close>

lemma find_impl_correct:
  assumes i: "inv env t" and cap: "length (m_buckets t) = 2 ^ m" "m \<le> 63"
    and k: "key \<noteq> m_empty_key t" and fuel: "length (m_buckets t) \<le> fuel"
  shows "\<exists>it. find_impl env fuel t key = Some (Inr it)
       \<and> (if key \<in> fst ` entries t
           then unat it < length (m_buckets t) \<and> occupied t (unat it)
              \<and> fst (m_buckets t ! unat it) = key \<and> it \<noteq> end_it t
           else it = end_it t)"
proof -
  let ?n = "length (m_buckets t)"
  have u: "unique_keys t" and c: "contiguous env t" using i by (simp_all add: inv_def)
  have f: "find_impl env fuel t key = find_probe fuel t key (key_to_idx env t key)"
    using k by (auto simp: find_impl_def)
  show ?thesis
  proof (cases "key \<in> fst ` entries t")
    case True
    then obtain p where p: "p < ?n" "fst (m_buckets t ! p) = key"
      using k by (auto simp: key_present_iff)
    then have o: "occupied t p" using k by (simp add: occupied_def)
    have "cdist ?n (home env t key) p < fuel"
      using cdist_less [OF home_less [OF cap] p(1), of env key] fuel by simp
    from find_probe_present [OF cap u c p(1) o p(2) this]
    have r: "find_impl env fuel t key = Some (Inr (word_of_nat p))" using f by simp
    have up: "unat (word_of_nat p :: size_t) = p" using cap p(1) by (rule unat_word_of_nat_slot)
    have "(word_of_nat p :: size_t) \<noteq> end_it t"
    proof
      assume "(word_of_nat p :: size_t) = end_it t"
      then have "unat (word_of_nat p :: size_t) = unat (end_it t)" by simp
      then show False using up unat_end_it [OF cap] p(1) by simp
    qed
    then show ?thesis using True r up p o by simp
  next
    case False
    then have a: "\<forall>i<?n. fst (m_buckets t ! i) \<noteq> key" using k by (simp add: key_present_iff)
    from find_probe_absent [OF cap inv_has_empty_slot [OF i cap(1)] k a fuel, of env]
    show ?thesis using False f by simp
  qed
qed

lemma entries_without:
  assumes u: "unique_keys t" and p: "p < length (m_buckets t)" "occupied t p"
  shows "entries t - {m_buckets t ! p} = {x \<in> entries t. fst x \<noteq> fst (m_buckets t ! p)}"
proof (intro set_eqI iffI)
  fix x assume x: "x \<in> entries t - {m_buckets t ! p}"
  then have "x \<in> entries t" by simp
  then obtain i where i: "i < length (m_buckets t)" "occupied t i" "x = m_buckets t ! i"
    unfolding entries_iff by blast
  have "fst x \<noteq> fst (m_buckets t ! p)"
  proof
    assume "fst x = fst (m_buckets t ! p)"
    then have "i = p" using u i p(1) by (simp add: unique_keys_def)
    then show False using x i(3) by simp
  qed
  then show "x \<in> {x \<in> entries t. fst x \<noteq> fst (m_buckets t ! p)}" using x by simp
next
  fix x assume "x \<in> {x \<in> entries t. fst x \<noteq> fst (m_buckets t ! p)}"
  then show "x \<in> entries t - {m_buckets t ! p}" by auto
qed

lemma erase_impl_key_correct:
  assumes i: "inv env t" and cap: "length (m_buckets t) = 2 ^ m" "m \<le> 63"
    and k: "key \<noteq> m_empty_key t" and fuel: "length (m_buckets t) \<le> fuel"
  shows "\<exists>t' n. erase_impl_key env fuel t key = Some (Inr (t', n)) \<and> inv env t'
       \<and> length (m_buckets t') = length (m_buckets t) \<and> m_empty_key t' = m_empty_key t
       \<and> entries t' = {x \<in> entries t. fst x \<noteq> key}
       \<and> (if key \<in> fst ` entries t
           then n = 1 \<and> length (occupied_slots t') = length (occupied_slots t) - 1
           else n = 0 \<and> t' = t)"
proof -
  from find_impl_correct [OF i cap k fuel]
  obtain it where it: "find_impl env fuel t key = Some (Inr it)"
    "if key \<in> fst ` entries t
     then unat it < length (m_buckets t) \<and> occupied t (unat it)
        \<and> fst (m_buckets t ! unat it) = key \<and> it \<noteq> end_it t
     else it = end_it t" by blast
  show ?thesis
  proof (cases "key \<in> fst ` entries t")
    case True
    then have p: "unat it < length (m_buckets t)" "occupied t (unat it)"
      "fst (m_buckets t ! unat it) = key" "it \<noteq> end_it t" using it(2) by simp_all
    from erase_impl_it_correct [OF i cap p(1,2) fuel]
    obtain t' where t': "erase_impl_it env fuel t it = Some (Inr t')" "inv env t'"
      "length (m_buckets t') = length (m_buckets t)" "m_empty_key t' = m_empty_key t"
      "entries t' = entries t - {m_buckets t ! unat it}"
      "length (occupied_slots t') = length (occupied_slots t) - 1" by blast
    have u: "unique_keys t" using i by (simp add: inv_def)
    have "entries t' = {x \<in> entries t. fst x \<noteq> key}"
      using t'(5) entries_without [OF u p(1,2)] p(3) by simp
    moreover have "erase_impl_key env fuel t key = Some (Inr (t', 1))"
      using it(1) p(4) t'(1) by (simp add: erase_impl_key_def bind_result_def)
    ultimately show ?thesis using True t' by simp
  next
    case False
    then have "it = end_it t" using it(2) by simp
    then have "erase_impl_key env fuel t key = Some (Inr (t, 0))"
      using it(1) by (simp add: erase_impl_key_def bind_result_def)
    moreover have "{x \<in> entries t. fst x \<noteq> key} = entries t" using False by force
    ultimately show ?thesis using False i by simp
  qed
qed

section \<open>Every reachable table satisfies the invariant\<close>

lemma inv_capacity_cases:
  assumes "inv env t"
  obtains "length (m_buckets t) = 0" | m where "m \<le> 63" "length (m_buckets t) = 2 ^ m"
  using assms unfolding inv_def by blast

lemma find_impl_zero_capacity:
  assumes "length (m_buckets t) = 0"
  shows "find_impl env fuel t key \<noteq> Some (Inr it)"
proof (cases fuel)
  case 0
  then show ?thesis by (simp add: find_impl_def)
next
  case (Suc f)
  then show ?thesis using assms by (simp add: find_impl_def)
qed

lemma erase_impl_key_sound:
  assumes i: "inv env t" and k: "key \<noteq> m_empty_key t"
    and r: "erase_impl_key env fuel t key = Some (Inr (t', n))"
  shows "inv env t' \<and> length (m_buckets t') = length (m_buckets t)
       \<and> m_empty_key t' = m_empty_key t \<and> entries t' = {x \<in> entries t. fst x \<noteq> key}
       \<and> (if key \<in> fst ` entries t
           then n = 1 \<and> length (occupied_slots t') = length (occupied_slots t) - 1
           else n = 0 \<and> t' = t)"
proof -
  from r obtain it where "find_impl env fuel t key = Some (Inr it)"
    unfolding erase_impl_key_def bind_result_Some by auto
  then have "length (m_buckets t) \<noteq> 0"
    using find_impl_zero_capacity [of t env fuel key it] by auto
  with i obtain m where cap: "length (m_buckets t) = 2 ^ m" "m \<le> 63"
    by (auto elim: inv_capacity_cases)
  let ?F = "max fuel (length (m_buckets t))"
  have "erase_impl_key env ?F t key = Some (Inr (t', n))"
    using r by (rule erase_impl_key_fuel) simp
  moreover have "length (m_buckets t) \<le> ?F" by simp
  from erase_impl_key_correct [OF i cap k this]
  obtain t'' n' where e: "erase_impl_key env ?F t key = Some (Inr (t'', n'))"
    and p: "inv env t'' \<and> length (m_buckets t'') = length (m_buckets t)
       \<and> m_empty_key t'' = m_empty_key t \<and> entries t'' = {x \<in> entries t. fst x \<noteq> key}
       \<and> (if key \<in> fst ` entries t
           then n' = 1 \<and> length (occupied_slots t'') = length (occupied_slots t) - 1
           else n' = 0 \<and> t'' = t)"
    by blast
  ultimately have "t'' = t'" "n' = n" by simp_all
  with p show ?thesis by blast
qed

lemma erase_impl_it_sound:
  assumes i: "inv env t" and p: "unat it < length (m_buckets t)" "occupied t (unat it)"
    and r: "erase_impl_it env fuel t it = Some (Inr t')"
  shows "inv env t' \<and> length (m_buckets t') = length (m_buckets t)
       \<and> m_empty_key t' = m_empty_key t \<and> entries t' = entries t - {m_buckets t ! unat it}
       \<and> length (occupied_slots t') = length (occupied_slots t) - 1"
proof -
  have "length (m_buckets t) \<noteq> 0" using p(1) by auto
  with i obtain m where cap: "length (m_buckets t) = 2 ^ m" "m \<le> 63"
    by (auto elim: inv_capacity_cases)
  let ?F = "max fuel (length (m_buckets t))"
  have "erase_impl_it env ?F t it = Some (Inr t')"
    using r by (rule erase_impl_it_fuel) simp
  moreover have "length (m_buckets t) \<le> ?F" by simp
  from erase_impl_it_correct [OF i cap p this]
  obtain t'' where e: "erase_impl_it env ?F t it = Some (Inr t'')"
    and q: "inv env t'' \<and> length (m_buckets t'') = length (m_buckets t)
       \<and> m_empty_key t'' = m_empty_key t \<and> entries t'' = entries t - {m_buckets t ! unat it}
       \<and> length (occupied_slots t'') = length (occupied_slots t) - 1"
    by blast
  ultimately have "t'' = t'" by simp
  with q show ?thesis by blast
qed

lemma clear_inv:
  assumes "inv env t"
  shows "inv env (clear t) \<and> occupied_slots (clear t) = []
       \<and> length (m_buckets (clear t)) = length (m_buckets t)
       \<and> m_empty_key (clear t) = m_empty_key t"
proof -
  have o: "occupied_slots (clear t) = []"
    by (auto simp: occupied_slots_def clear_def filter_empty_conv)
  have no: "\<not> occupied (clear t) i" if "i < length (m_buckets t)" for i
    using that by (simp add: occupied_def clear_def)
  have "unique_keys (clear t)" using no by (simp add: unique_keys_def clear_def)
  moreover have "contiguous env (clear t)" using no by (simp add: contiguous_def clear_def)
  moreover have "round_to_float 0 = 0" by (simp add: round_to_float_zero)
  ultimately have "inv env (clear t)"
    using assms o unfolding inv_def by (simp add: clear_def)
  then show ?thesis using o by (simp add: clear_def)
qed

lemma reserve_sound:
  assumes i: "inv env t" and r: "reserve env fuel t count = Some (Inr t')"
  shows "inv env t' \<and> entries t' = entries t \<and> m_empty_key t' = m_empty_key t
       \<and> length (occupied_slots t') = length (occupied_slots t)"
proof -
  from r obtain c where "rehash env fuel t c = Some (Inr t')"
    by (auto simp: reserve_def split: sum.splits)
  from rehash_sound [OF i this] show ?thesis by simp
qed

lemma insert_range_sound:
  assumes v: "max_size env < 2 ^ 62"
  shows "inv env t \<Longrightarrow> \<forall>x\<in>set xs. fst x \<noteq> m_empty_key t \<Longrightarrow>
    insert_range env fuel t xs = Some (Inr t') \<Longrightarrow>
    inv env t' \<and> m_empty_key t' = m_empty_key t"
proof (induction xs arbitrary: t)
  case Nil
  then show ?case by simp
next
  case (Cons x xs)
  from Cons.prems(3) obtain r where r: "emplace_impl env fuel t (fst x) (snd x) = Some (Inr r)"
    "insert_range env fuel (fst r) xs = Some (Inr t')"
    unfolding insert_range.simps bind_result_Some by auto
  obtain t1 it ins where r': "r = (t1, it, ins)" by (cases r)
  have k: "fst x \<noteq> m_empty_key t" using Cons.prems(2) by simp
  from emplace_impl_correct [OF Cons.prems(1) v k r(1) [unfolded r']]
  have t1: "inv env t1" "m_empty_key t1 = m_empty_key t" by simp_all
  have "\<forall>y\<in>set xs. fst y \<noteq> m_empty_key t1" using Cons.prems(2) t1(2) by simp
  from Cons.IH [OF t1(1) this] r(2) r' t1(2) show ?case by simp
qed

lemma hash_map_copy_sound:
  assumes v: "max_size env < 2 ^ 62" and i: "inv env t"
    and r: "hash_map_copy env fuel t c = Some (Inr t')"
  shows "inv env t' \<and> m_empty_key t' = m_empty_key t"
proof -
  from r obtain t0 where t0: "hash_map_ctor env c (m_empty_key t) = Inr t0"
    "insert_range env fuel t0 (occupied_slots t) = Some (Inr t')"
    by (auto simp: hash_map_copy.simps occupied_slots_def split: sum.splits)
  from hash_map_ctor_inv [OF t0(1)] have z: "inv env t0" "m_empty_key t0 = m_empty_key t"
    by simp_all
  have "\<forall>x\<in>set (occupied_slots t). fst x \<noteq> m_empty_key t0"
    using z(2) by (simp add: occupied_slots_def)
  from insert_range_sound [OF v z(1) this t0(2)] z(2) show ?thesis by simp
qed

lemma swap_fst: "fst (swap t other) = other"
  by (simp add: swap_def)

theorem reachable_inv:
  assumes v: "max_size env < 2 ^ 62" and r: "reachable env t"
  shows "inv env t"
  using r
proof (induction rule: reachable.induct)
  case (ctor n_buckets empty_key t)
  from hash_map_ctor_inv [OF this] show ?case by simp
next
  case (copy t fuel n_buckets t')
  from hash_map_copy_sound [OF v copy.IH copy.hyps(2)] show ?case by simp
next
  case (emplace t key fuel val t' it inserted)
  from emplace_impl_correct [OF emplace.IH v emplace.hyps(2,3)] show ?case by simp
next
  case (erase_key t key fuel t' n)
  from erase_impl_key_sound [OF erase_key.IH erase_key.hyps(2,3)] show ?case by simp
next
  case (erase_it t it fuel t')
  from erase_impl_it_sound [OF erase_it.IH erase_it.hyps(2,3,4)] show ?case by simp
next
  case (clear t)
  from clear_inv [OF clear.IH] show ?case by simp
next
  case (rehash t fuel count t')
  from rehash_sound [OF rehash.IH rehash.hyps(2)] show ?case by simp
next
  case (reserve t fuel count t')
  from reserve_sound [OF reserve.IH reserve.hyps(2)] show ?case by simp
next
  case (swap t other)
  then show ?case by (simp add: swap_fst)
qed

section \<open>Lookups on a table that satisfies the invariant\<close>

lemma entries_unique:
  assumes u: "unique_keys t" and x: "x \<in> entries t" and y: "y \<in> entries t"
    and f: "fst x = fst y"
  shows "x = y"
proof -
  from x obtain i where i: "i < length (m_buckets t)" "occupied t i" "x = m_buckets t ! i"
    unfolding entries_iff by blast
  from y obtain j where j: "j < length (m_buckets t)" "occupied t j" "y = m_buckets t ! j"
    unfolding entries_iff by blast
  have "fst (m_buckets t ! i) = fst (m_buckets t ! j)" using f i(3) j(3) by simp
  with u i(1,2) j(1) have "i = j" unfolding unique_keys_def by blast
  then show ?thesis using i(3) j(3) by simp
qed

lemma find_impl_lookup:
  assumes i: "inv env t" and cap: "length (m_buckets t) = 2 ^ m" "m \<le> 63"
    and k: "key \<noteq> m_empty_key t" and fuel: "length (m_buckets t) \<le> fuel"
  shows "\<exists>it. find_impl env fuel t key = Some (Inr it)
       \<and> (\<forall>val. (key, val) \<in> entries t \<longrightarrow>
             it \<noteq> end_it t \<and> unat it < length (m_buckets t) \<and> m_buckets t ! unat it = (key, val))
       \<and> (key \<notin> fst ` entries t \<longrightarrow> it = end_it t)"
proof -
  have u: "unique_keys t" using i by (simp add: inv_def)
  from find_impl_correct [OF i cap k fuel]
  obtain it where it: "find_impl env fuel t key = Some (Inr it)"
    and p: "key \<in> fst ` entries t \<Longrightarrow> unat it < length (m_buckets t) \<and> occupied t (unat it)
              \<and> fst (m_buckets t ! unat it) = key \<and> it \<noteq> end_it t"
    and a: "key \<notin> fst ` entries t \<Longrightarrow> it = end_it t"
    by (auto split: if_splits)
  have "it \<noteq> end_it t \<and> unat it < length (m_buckets t) \<and> m_buckets t ! unat it = (key, val)"
    if e: "(key, val) \<in> entries t" for val
  proof -
    have "key \<in> fst ` entries t" using e by force
    from p [OF this] have q: "unat it < length (m_buckets t)" "occupied t (unat it)"
      "fst (m_buckets t ! unat it) = key" "it \<noteq> end_it t" by simp_all
    have "m_buckets t ! unat it \<in> entries t" unfolding entries_iff using q(1,2) by blast
    from entries_unique [OF u this e] q(3) have "m_buckets t ! unat it = (key, val)" by simp
    then show ?thesis using q by simp
  qed
  then show ?thesis using it a by blast
qed

lemma at_impl_lookup:
  assumes i: "inv env t" and cap: "length (m_buckets t) = 2 ^ m" "m \<le> 63"
    and k: "key \<noteq> m_empty_key t" and fuel: "length (m_buckets t) \<le> fuel"
  shows "at_impl env fuel t key = Some (Inr val) \<longleftrightarrow> (key, val) \<in> entries t"
    and "at_impl env fuel t key = Some (Inl Key_not_found) \<longleftrightarrow> key \<notin> fst ` entries t"
proof -
  from find_impl_lookup [OF i cap k fuel]
  obtain it where it: "find_impl env fuel t key = Some (Inr it)"
    and p: "\<And>val. (key, val) \<in> entries t \<Longrightarrow>
             it \<noteq> end_it t \<and> unat it < length (m_buckets t) \<and> m_buckets t ! unat it = (key, val)"
    and a: "key \<notin> fst ` entries t \<Longrightarrow> it = end_it t"
    by blast
  have at: "at_impl env fuel t key =
      (if it \<noteq> end_it t then Some (Inr (snd (m_buckets t ! unat it))) else Some (Inl Key_not_found))"
    by (simp add: at_impl_def it bind_result_def)
  show "at_impl env fuel t key = Some (Inr val) \<longleftrightarrow> (key, val) \<in> entries t"
  proof (cases "key \<in> fst ` entries t")
    case True
    then obtain w where w: "(key, w) \<in> entries t" by force
    from p [OF w] have q: "it \<noteq> end_it t" "m_buckets t ! unat it = (key, w)" by simp_all
    have "(key, val) \<in> entries t \<longleftrightarrow> val = w"
      using entries_unique [OF _ w, of "(key, val)"] i w by (auto simp: inv_def)
    then show ?thesis unfolding at using q by auto
  next
    case False
    then have "(key, val) \<notin> entries t" by force
    then show ?thesis unfolding at using a [OF False] by simp
  qed
  show "at_impl env fuel t key = Some (Inl Key_not_found) \<longleftrightarrow> key \<notin> fst ` entries t"
  proof (cases "key \<in> fst ` entries t")
    case True
    then obtain w where w: "(key, w) \<in> entries t" by force
    from p [OF w] have q: "it \<noteq> end_it t" by simp
    then show ?thesis unfolding at using True by simp
  next
    case False
    then show ?thesis unfolding at using a [OF False] by simp
  qed
qed

lemma at_impl_fuel:
  assumes "at_impl env fuel t key = Some r" and "fuel \<le> fuel'"
  shows "at_impl env fuel' t key = Some r"
proof -
  from assms(1) obtain x where x: "find_impl env fuel t key = Some x"
    unfolding at_impl_def by (cases "find_impl env fuel t key") (simp_all add: bind_result_def)
  from find_impl_fuel [OF x assms(2)] assms(1) x show ?thesis
    by (simp add: at_impl_def)
qed

lemma at_impl_sound:
  assumes i: "inv env t" and k: "key \<noteq> m_empty_key t"
    and r: "at_impl env fuel t key = Some (Inr val)"
  shows "(key, val) \<in> entries t \<and> (\<exists>m\<le>63. length (m_buckets t) = 2 ^ m)"
proof -
  from r obtain it where "find_impl env fuel t key = Some (Inr it)"
    unfolding at_impl_def bind_result_Some by auto
  then have "length (m_buckets t) \<noteq> 0"
    using find_impl_zero_capacity [of t env fuel key it] by auto
  with i obtain m where cap: "length (m_buckets t) = 2 ^ m" "m \<le> 63"
    by (auto elim: inv_capacity_cases)
  let ?F = "max fuel (length (m_buckets t))"
  have "at_impl env ?F t key = Some (Inr val)" using r by (rule at_impl_fuel) simp
  moreover have "length (m_buckets t) \<le> ?F" by simp
  from at_impl_lookup(1) [OF i cap k this, of val]
  have "at_impl env ?F t key = Some (Inr val) \<longleftrightarrow> (key, val) \<in> entries t" .
  ultimately show ?thesis using cap by blast
qed

section \<open>The concrete table is reachable\<close>

lemma env_w_valid: "max_size env_w < 2 ^ 62"
  by (simp add: env_w_def)

lemma table_w_reachable: "reachable env_w table_w"
proof -
  let ?t0 = "\<lparr>m_empty_key = 0::nat, m_buckets = replicate 8 (0, 0::nat), m_size = 0\<rparr>"
  let ?t1 = "\<lparr>m_empty_key = 0::nat,
      m_buckets = [(0, 0), (1, 10), (0, 0), (0, 0), (0, 0), (0, 0), (0, 0), (0, 0::nat)],
      m_size = 1\<rparr>"
  let ?t2 = "\<lparr>m_empty_key = 0::nat,
      m_buckets = [(0, 0), (1, 10), (9, 90), (0, 0), (0, 0), (0, 0), (0, 0), (0, 0::nat)],
      m_size = 2\<rparr>"
  have "hash_map_ctor env_w 8 0 = Inr ?t0" by code_simp
  then have r0: "reachable env_w ?t0" by (rule reachable.ctor)
  have e1: "emplace_impl env_w 8 ?t0 1 10 = Some (Inr (?t1, 1, True))" by code_simp
  have r1: "reachable env_w ?t1" by (rule reachable.emplace [OF r0 _ e1]) simp
  have e2: "emplace_impl env_w 8 ?t1 9 90 = Some (Inr (?t2, 2, True))" by code_simp
  have r2: "reachable env_w ?t2" by (rule reachable.emplace [OF r1 _ e2]) simp
  have e3: "emplace_impl env_w 8 ?t2 17 170 = Some (Inr (table_w, 3, True))" by code_simp
  show ?thesis by (rule reachable.emplace [OF r2 _ e3]) simp
qed

lemma count_impl_absent:
  assumes "find_impl env fuel t key = Some (Inr (end_it t))"
  shows "count_impl env fuel t key = Some (Inr 0)"
  using assms by (simp add: count_impl_def bind_result_def)

lemma reserve_total:
  assumes "inv env t" and "max_size env < fuel"
  shows "\<exists>r. reserve env fuel t count = Some r"
proof (cases "size_t_of_float (of_int \<lceil>float_of_size_t count / max_load_factor t\<rceil>)")
  case (Inl e)
  then show ?thesis by (simp add: reserve_def)
next
  case (Inr c)
  then show ?thesis using rehash_total [OF assms, of c] by (simp add: reserve_def)
qed

lemma reserve_is_rehash:
  assumes "reserve env fuel t count = Some (Inr t')"
  shows "\<exists>c. rehash env fuel t c = Some (Inr t')"
  using assms by (auto simp: reserve_def split: sum.splits)

lemma apply_op_keeps:
  assumes v: "max_size env < 2 ^ 62" and r: "reachable env t"
    and a: "allowed (m_empty_key t) key op"
    and x: "x \<in> entries t" "fst x = key"
    and s: "apply_op env fuel t op = Some (Inr t')"
  shows "reachable env t' \<and> m_empty_key t' = m_empty_key t \<and> x \<in> entries t'"
proof -
  have i: "inv env t" using v r by (rule reachable_inv)
  show ?thesis
  proof (cases op)
    case (Insert k w)
    from s obtain y where "emplace_impl env fuel t k w = Some (Inr y)" "t' = fst y"
      unfolding Insert apply_op.simps insert_hm_def bind_result_Some by auto
    then obtain it ins where e: "emplace_impl env fuel t k w = Some (Inr (t', it, ins))"
      by (cases y) auto
    have k: "k \<noteq> m_empty_key t" using a Insert by simp
    from emplace_impl_correct [OF i v k e]
    have "m_empty_key t' = m_empty_key t" "entries t' = entries t \<or> entries t' = insert (k, w) (entries t)"
      by (auto split: if_splits)
    then show ?thesis using reachable.emplace [OF r k e] x(1) by auto
  next
    case (Erase k)
    from s obtain y where "erase_impl_key env fuel t k = Some (Inr y)" "t' = fst y"
      unfolding Erase apply_op.simps erase_def bind_result_Some by auto
    then obtain n where e: "erase_impl_key env fuel t k = Some (Inr (t', n))"
      by (cases y) auto
    have k: "k \<noteq> m_empty_key t" "k \<noteq> key" using a Erase by simp_all
    from erase_impl_key_sound [OF i k(1) e]
    have "m_empty_key t' = m_empty_key t" "entries t' = {x \<in> entries t. fst x \<noteq> k}"
      by simp_all
    then show ?thesis using reachable.erase_key [OF r k(1) e] x k(2) by auto
  next
    case (Rehash c)
    then have e: "rehash env fuel t c = Some (Inr t')" using s by simp
    from rehash_sound [OF i e] reachable.rehash [OF r e] x(1) show ?thesis by simp
  next
    case (Reserve c)
    then have e: "reserve env fuel t c = Some (Inr t')" using s by simp
    from reserve_sound [OF i e] reachable.reserve [OF r e] x(1) show ?thesis by simp
  qed
qed

lemma run_ops_keeps:
  assumes v: "max_size env < 2 ^ 62"
  shows "reachable env t \<Longrightarrow> \<forall>op\<in>set ops. allowed (m_empty_key t) key op \<Longrightarrow>
    x \<in> entries t \<Longrightarrow> fst x = key \<Longrightarrow> run_ops env fuel t ops = Some (Inr t') \<Longrightarrow>
    reachable env t' \<and> m_empty_key t' = m_empty_key t \<and> x \<in> entries t'"
proof (induction ops arbitrary: t)
  case Nil
  then show ?case by simp
next
  case (Cons op ops)
  from Cons.prems(5) obtain t1 where t1: "apply_op env fuel t op = Some (Inr t1)"
    "run_ops env fuel t1 ops = Some (Inr t')"
    unfolding run_ops.simps bind_result_Some by auto
  have a: "allowed (m_empty_key t) key op" using Cons.prems(2) by simp
  from apply_op_keeps [OF v Cons.prems(1) a Cons.prems(3,4) t1(1)]
  have k: "reachable env t1" "m_empty_key t1 = m_empty_key t" "x \<in> entries t1" by simp_all
  have "\<forall>op\<in>set ops. allowed (m_empty_key t1) key op" using Cons.prems(2) k(2) by simp
  from Cons.IH [OF k(1) this k(3) Cons.prems(4) t1(2)] k(2) show ?case by simp
qed

section \<open>A table of \<open>2 ^ 25\<close> buckets\<close>

lemma round_to_float_above_two_power_24: "round_to_float 16777217 = 16777216"
proof -
  have "floorlog 2 (16777217::nat) \<le> 25" by (intro floorlog_leI) simp_all
  moreover have "Suc 24 \<le> floorlog 2 (16777217::nat)" by (intro floorlog_ge_SucI) simp_all
  ultimately have "floorlog 2 (16777217::nat) = 25" by simp
  then show ?thesis by (simp add: round_to_float_def)
qed

lemma table_filled_length: "length (m_buckets (table_filled k)) = 2 ^ 25"
  by (simp add: table_filled_def)

lemma table_filled_cap:
  "length (m_buckets (table_filled k)) = 0 \<or> (\<exists>m\<le>63. length (m_buckets (table_filled k)) = 2 ^ m)"
  using table_filled_length [of k] by (intro disjI2 exI [of _ 25]) simp

lemma table_filled_size:
  assumes "k \<le> 2 ^ 24"
  shows "unat (m_size (table_filled k)) = k"
proof -
  have "(2::nat) ^ 24 < 2 ^ 64" by simp
  then have "k < 2 ^ 64" using assms by linarith
  then have "unat (word_of_nat k :: size_t) = k" by (simp add: unat_of_nat)
  then show ?thesis by (simp add: table_filled_def)
qed

lemma table_filled_slot:
  assumes "i < 2 ^ 25"
  shows "m_buckets (table_filled k) ! i = (if 1 \<le> i \<and> i \<le> k then (i, 0) else (0, 0))"
  using assms by (simp add: table_filled_def)

lemma table_filled_home:
  assumes "j \<le> 2 ^ 24 + 1"
  shows "key_to_idx env_big (table_filled k) j = word_of_nat j"
    and "unat (word_of_nat j :: size_t) = j"
proof -
  have "(2::nat) ^ 24 + 1 < 2 ^ 25" by simp
  then have j25: "j < 2 ^ 25" using assms by linarith
  have "(2::nat) ^ 25 < 2 ^ 64" by simp
  then have "j < 2 ^ 64" using j25 by linarith
  then show u: "unat (word_of_nat j :: size_t) = j" by (simp add: unat_of_nat)
  have "(25::nat) \<le> 63" by simp
  from unat_key_to_idx [OF table_filled_length this, of env_big k j]
  have "unat (key_to_idx env_big (table_filled k) j) = j"
    using u j25 by (simp add: env_big_def table_filled_length)
  then show "key_to_idx env_big (table_filled k) j = word_of_nat j"
    using u by (simp add: word_unat_eq_iff)
qed

lemma table_filled_check:
  assumes "k < 2 ^ 24"
  shows "check_for_rehash env_big fuel (table_filled k) = Some (Inr (table_filled k))"
proof -
  have s: "unat (m_size (table_filled k)) = k" using assms by (intro table_filled_size) simp
  have "(2::nat) ^ 24 < 2 ^ 63" by simp
  then have c: "k < 2 ^ 63" using assms by linarith
  have "round_to_float (Suc k) \<le> round_to_float (2 ^ 24)"
    using assms by (intro round_to_float_mono) simp
  then have "round_to_float (Suc k) \<le> 2 ^ 24" by (simp only: round_to_float_two_power)
  then have "\<not> (2::nat) ^ 25 < 2 * round_to_float (Suc k)" by simp
  then have "\<not> float_of_size_t (size_hm (table_filled k) + 1)
       > float_of_size_t (bucket_count (table_filled k)) * max_load_factor (table_filled k)"
    unfolding growth_check [OF table_filled_cap s c] table_filled_length .
  then show ?thesis by (simp add: check_for_rehash.simps)
qed

lemma table_filled_store:
  assumes "j = Suc k" and "j < 2 ^ 25"
  shows "(table_filled k)\<lparr>m_buckets := (m_buckets (table_filled k))[j := (j, 0)],
                        m_size := m_size (table_filled k) + 1\<rparr> = table_filled j"
proof -
  let ?f = "\<lambda>k i. if 1 \<le> i \<and> i \<le> k then (i, 0::nat) else (0::nat, 0)"
  have "(map (?f k) [0..<2 ^ 25])[j := (j, 0)] = map (?f j) [0..<2 ^ 25]"
  proof (rule nth_equalityI)
    show "length ((map (?f k) [0..<2 ^ 25])[j := (j, 0)]) = length (map (?f j) [0..<2 ^ 25])"
      by simp
    fix i
    assume "i < length ((map (?f k) [0..<2 ^ 25])[j := (j, 0)])"
    then have i: "i < 2 ^ 25" by simp
    show "(map (?f k) [0..<2 ^ 25])[j := (j, 0)] ! i = map (?f j) [0..<2 ^ 25] ! i"
    proof (cases "i = j")
      case True
      then show ?thesis using i assms(1) by simp
    next
      case False
      then have "(map (?f k) [0..<2 ^ 25])[j := (j, 0)] ! i = map (?f k) [0..<2 ^ 25] ! i"
        by simp
      also have "\<dots> = ?f k i" using i by simp
      also have "\<dots> = ?f j i" using False assms(1) by auto
      also have "\<dots> = map (?f j) [0..<2 ^ 25] ! i" using i by simp
      finally show ?thesis .
    qed
  qed
  moreover have "word_of_nat k + 1 = (word_of_nat j :: size_t)" using assms(1) by simp
  ultimately show ?thesis by (simp add: table_filled_def)
qed

lemma table_filled_insert:
  assumes "k \<le> 2 ^ 24"
    and chk: "check_for_rehash env_big (Suc fuel) (table_filled k) = Some (Inr (table_filled k))"
  shows "emplace_impl env_big (Suc fuel) (table_filled k) (Suc k) 0
         = Some (Inr (table_filled (Suc k), word_of_nat (Suc k), True))"
proof -
  define j where "j = Suc k"
  have j: "j \<le> 2 ^ 24 + 1" using assms(1) by (simp add: j_def)
  have "(2::nat) ^ 24 + 1 < 2 ^ 25" by simp
  then have j25: "j < 2 ^ 25" using j by linarith
  have e: "m_empty_key (table_filled k) = 0" by (simp add: table_filled_def)
  have "m_buckets (table_filled k) ! j = (if 1 \<le> j \<and> j \<le> k then (j, 0) else (0, 0))"
    using j25 by (rule table_filled_slot)
  then have slot: "m_buckets (table_filled k) ! j = (0, 0)" by (simp add: j_def)
  have j0: "j \<noteq> 0" by (simp add: j_def)
  have "emplace_probe (Suc fuel) (table_filled k) j 0 (word_of_nat j)
      = Some (Inr ((table_filled k)\<lparr>m_buckets := (m_buckets (table_filled k))[j := (j, 0)],
                        m_size := m_size (table_filled k) + 1\<rparr>, word_of_nat j, True))"
    unfolding emplace_probe.simps table_filled_home(2) [OF j] table_filled_length slot e
    using j25 by simp
  then have p: "emplace_probe (Suc fuel) (table_filled k) j 0 (word_of_nat j)
      = Some (Inr (table_filled j, word_of_nat j, True))"
    by (simp only: table_filled_store [OF j_def j25])
  have nd: "\<not> (\<not> ndebug env_big \<and> m_empty_key (table_filled k) = j)" using j0 e by simp
  have "emplace_impl env_big (Suc fuel) (table_filled k) j 0
      = emplace_probe (Suc fuel) (table_filled k) j 0 (key_to_idx env_big (table_filled k) j)"
    by (simp only: emplace_impl.simps [of env_big "Suc fuel" "table_filled k" j 0] nd if_False
        chk bind_result_def option.case sum.case)
  then have "emplace_impl env_big (Suc fuel) (table_filled k) j 0
         = Some (Inr (table_filled j, word_of_nat j, True))"
    by (simp only: table_filled_home(1) [OF j] p)
  then show ?thesis by (simp only: j_def)
qed

lemma table_filled_reachable: "k \<le> 2 ^ 24 \<Longrightarrow> reachable env_big (table_filled k)"
proof (induction k)
  case 0
  have "(25::nat) \<le> 63" by simp
  then have c: "compute_closest_capacity (ndebug env_big) (2 ^ 25) = Inr (2 ^ 25)"
    by (rule compute_closest_capacity_idem)
  have u: "unat (2 ^ 25 :: size_t) = 2 ^ 25" by (rule unat_two_power) simp
  have "replicate (2 ^ 25) (0::nat, 0::nat) = map (\<lambda>i. (0, 0)) [0..<2 ^ 25]"
    by (simp only: map_replicate_const length_upt diff_zero)
  then have "hash_map_ctor env_big (2 ^ 25) 0 = Inr (table_filled 0)"
    unfolding hash_map_ctor_def c by (simp add: u table_filled_def env_big_def)
  then show ?case by (rule reachable.ctor)
next
  case (Suc k)
  then have k: "k < 2 ^ 24" by simp
  then have r: "reachable env_big (table_filled k)" using Suc.IH by simp
  have e: "Suc k \<noteq> m_empty_key (table_filled k)" by (simp add: table_filled_def)
  have "k \<le> 2 ^ 24" using k by simp
  from table_filled_insert [OF this table_filled_check [OF k]]
  have "emplace_impl env_big (Suc 0) (table_filled k) (Suc k) 0
         = Some (Inr (table_filled (Suc k), word_of_nat (Suc k), True))" .
  with r e show ?case by (rule reachable.emplace)
qed

lemma table_big_reachable: "reachable env_big table_big"
  unfolding table_big_def by (rule table_filled_reachable) simp


lemma table_big_facts:
  "unat (size_hm table_big) = 16777216" "unat (bucket_count table_big) = 33554432"
  "length (m_buckets table_big) = 33554432" "m_empty_key table_big = 0"
proof -
  have "(2::nat) ^ 24 \<le> 2 ^ 24" by simp
  from table_filled_size [OF this] show "unat (size_hm table_big) = 16777216"
    by (simp add: size_hm_def table_big_def)
  show "unat (bucket_count table_big) = 33554432"
    by (simp add: bucket_count_def table_big_def table_filled_length)
  show "length (m_buckets table_big) = 33554432"
    by (simp add: table_big_def table_filled_length)
  show "m_empty_key table_big = 0" by (simp add: table_big_def table_filled_def)
qed

lemma table_big_check: "check_for_rehash env_big fuel table_big = Some (Inr table_big)"
proof -
  have cap: "length (m_buckets table_big) = 0 \<or> (\<exists>m\<le>63. length (m_buckets table_big) = 2 ^ m)"
    unfolding table_big_def by (rule table_filled_cap)
  have s: "unat (m_size table_big) = 2 ^ 24"
    unfolding table_big_def by (rule table_filled_size) simp
  have c: "(2::nat) ^ 24 < 2 ^ 63" by simp
  have "Suc (2 ^ 24) = (16777217::nat)" by simp
  then have "\<not> (2::nat) ^ 25 < 2 * round_to_float (Suc (2 ^ 24))"
    by (simp only: round_to_float_above_two_power_24) simp
  then have "\<not> float_of_size_t (size_hm table_big + 1)
       > float_of_size_t (bucket_count table_big) * max_load_factor table_big"
    unfolding growth_check [OF cap s c] unfolding table_big_def table_filled_length .
  then show ?thesis by (simp add: check_for_rehash.simps)
qed

lemma table_big_insert:
  "emplace_impl env_big 1 table_big 16777217 0 = Some (Inr (table_filled 16777217, 16777217, True))"
proof -
  have k: "(2::nat) ^ 24 \<le> 2 ^ 24" by simp
  have "check_for_rehash env_big (Suc 0) (table_filled (2 ^ 24)) = Some (Inr (table_filled (2 ^ 24)))"
    using table_big_check [of "Suc 0"] by (simp only: table_big_def)
  from table_filled_insert [OF k this]
  have "emplace_impl env_big (Suc 0) (table_filled (2 ^ 24)) (Suc (2 ^ 24)) 0
         = Some (Inr (table_filled (Suc (2 ^ 24)), word_of_nat (Suc (2 ^ 24)), True))" .
  moreover have "Suc (2 ^ 24) = (16777217::nat)" by simp
  moreover have "(word_of_nat 16777217 :: size_t) = 16777217" by simp
  ultimately show ?thesis by (simp only: table_big_def One_nat_def)
qed

text \<open>
  What the invariant gives for the size and the load of a reachable table: the load check
  is exact up to \<open>2 ^ 24\<close> buckets, where every size is a \<^verbatim>\<open>float\<close>.
\<close>

lemma reachable_size_load:
  assumes v: "max_size env < 2 ^ 62" and r: "reachable env t"
  shows "unat (size_hm t) = length (occupied_slots t)"
    and "2 * round_to_float (unat (size_hm t)) \<le> length (m_buckets t)"
    and "length (m_buckets t) \<le> 2 ^ 24 \<Longrightarrow> 2 * unat (size_hm t) \<le> length (m_buckets t)"
proof -
  have i: "inv env t" using v r by (rule reachable_inv)
  then show s: "unat (size_hm t) = length (occupied_slots t)" by (simp add: inv_def size_hm_def)
  show l: "2 * round_to_float (unat (size_hm t)) \<le> length (m_buckets t)"
    using i s by (simp add: inv_def)
  show "2 * unat (size_hm t) \<le> length (m_buckets t)" if "length (m_buckets t) \<le> 2 ^ 24"
    using l that by (rule load_exact)
qed

section \<open>Termination of the probe loops\<close>

lemma find_probe_short:
  assumes cap: "length (m_buckets t) = 2 ^ m" "m \<le> 63"
    and i: "unat idx < length (m_buckets t)"
    and s: "\<forall>d<D. fst (m_buckets t ! ((unat idx + d) mod length (m_buckets t))) \<noteq> key
          \<and> fst (m_buckets t ! ((unat idx + d) mod length (m_buckets t))) \<noteq> m_empty_key t"
    and f: "fuel \<le> D"
  shows "find_probe fuel t key idx = None"
proof -
  have "\<forall>d<fuel. fst (m_buckets t ! ((unat idx + d) mod length (m_buckets t))) \<noteq> key
          \<and> fst (m_buckets t ! ((unat idx + d) mod length (m_buckets t))) \<noteq> m_empty_key t"
    using s f by simp
  from find_probe_skip [OF cap i this, of 0] show ?thesis by auto
qed

lemma emplace_probe_short:
  assumes cap: "length (m_buckets t) = 2 ^ m" "m \<le> 63"
    and i: "unat idx < length (m_buckets t)"
    and s: "\<forall>d<D. fst (m_buckets t ! ((unat idx + d) mod length (m_buckets t))) \<noteq> key
          \<and> fst (m_buckets t ! ((unat idx + d) mod length (m_buckets t))) \<noteq> m_empty_key t"
    and f: "fuel \<le> D"
  shows "emplace_probe fuel t key val idx = None"
proof -
  have "\<forall>d<fuel. fst (m_buckets t ! ((unat idx + d) mod length (m_buckets t))) \<noteq> key
          \<and> fst (m_buckets t ! ((unat idx + d) mod length (m_buckets t))) \<noteq> m_empty_key t"
    using s f by simp
  from emplace_probe_skip [OF cap i this, of 0 val] show ?thesis by auto
qed

text \<open>
  C9: on a table whose capacity is a power of two and whose load is at most one half, for
  every key other than the empty key there is a step count \<open>D\<close> below \<^verbatim>\<open>bucket_count()\<close>
  such that the \<open>D\<close> slots from the home index on hold other keys and the next slot is
  empty or holds the key.  The probe loops of \<^verbatim>\<open>find_impl\<close> and \<^verbatim>\<open>emplace_impl\<close> examine
  exactly these \<open>D + 1\<close> slots: with fuel for \<open>D\<close> iterations or fewer they have not returned,
  with more they return at that slot, \<^verbatim>\<open>find\<close> with its iterator or \<^verbatim>\<open>end()\<close>,
  \<^verbatim>\<open>emplace\<close> with the existing entry or the entry stored there.
\<close>

theorem probe_loops_terminate:
  assumes "length (m_buckets t) = 2 ^ m" and "m \<le> 63"
    and "2 * length (occupied_slots t) \<le> length (m_buckets t)"
    and "key \<noteq> m_empty_key t"
  shows "\<exists>D<length (m_buckets t).
     (\<forall>d<D. fst (m_buckets t ! ((home env t key + d) mod length (m_buckets t))) \<noteq> key
          \<and> fst (m_buckets t ! ((home env t key + d) mod length (m_buckets t))) \<noteq> m_empty_key t)
     \<and> (fst (m_buckets t ! ((home env t key + D) mod length (m_buckets t))) = key
        \<or> fst (m_buckets t ! ((home env t key + D) mod length (m_buckets t))) = m_empty_key t)
     \<and> (\<forall>fuel\<le>D. find_impl env fuel t key = None
            \<and> emplace_probe fuel t key val (key_to_idx env t key) = None)
     \<and> (\<forall>fuel>D.
          find_impl env fuel t key =
            Some (Inr (if fst (m_buckets t ! ((home env t key + D) mod length (m_buckets t))) = key
                       then word_of_nat ((home env t key + D) mod length (m_buckets t))
                       else end_it t))
        \<and> emplace_probe fuel t key val (key_to_idx env t key) =
            Some (Inr (if fst (m_buckets t ! ((home env t key + D) mod length (m_buckets t))) = key
                       then (t, word_of_nat ((home env t key + D) mod length (m_buckets t)), False)
                       else (t\<lparr>m_buckets := (m_buckets t)
                                 [(home env t key + D) mod length (m_buckets t) := (key, val)],
                               m_size := m_size t + 1\<rparr>,
                             word_of_nat ((home env t key + D) mod length (m_buckets t)), True))))"
proof -
  let ?n = "length (m_buckets t)"
  let ?h = "home env t key"
  let ?P = "\<lambda>i. fst (m_buckets t ! i) \<noteq> key \<and> fst (m_buckets t ! i) \<noteq> m_empty_key t"
  note cap = assms(1,2)
  have n0: "0 < ?n" using cap by simp
  have h: "?h < ?n" using cap by (rule home_less)
  have hu: "unat (key_to_idx env t key) < ?n" using h by (simp add: home_def)
  have "length (occupied_slots t) < ?n" using assms(3) n0 by linarith
  then obtain e where e: "e < ?n" "\<not> occupied t e" using has_empty_slot by blast
  then have "\<not> ?P e" by (simp add: occupied_def)
  from first_empty [of ?h ?n e ?P, OF h e(1) this]
  obtain D where D: "D < ?n" "\<not> ?P ((?h + D) mod ?n)" "\<forall>d<D. ?P ((?h + d) mod ?n)" by blast
  let ?p = "(?h + D) mod ?n"
  have s: "\<forall>d<D. fst (m_buckets t ! ((unat (key_to_idx env t key) + d) mod ?n)) \<noteq> key
      \<and> fst (m_buckets t ! ((unat (key_to_idx env t key) + d) mod ?n)) \<noteq> m_empty_key t"
    using D(3) by (simp add: home_def)
  have pn: "?p < ?n" using n0 by simp
  have up: "unat (word_of_nat ?p :: size_t) = ?p" using cap pn by (rule unat_word_of_nat_slot)
  have fi: "find_impl env fuel t key = find_probe fuel t key (key_to_idx env t key)" for fuel
    using assms(4) by (auto simp: find_impl_def)
  have short: "find_impl env fuel t key = None
      \<and> emplace_probe fuel t key val (key_to_idx env t key) = None" if "fuel \<le> D" for fuel
    using find_probe_short [OF cap hu s that] emplace_probe_short [OF cap hu s that, of val]
    by (simp add: fi)
  have long: "find_impl env fuel t key =
            Some (Inr (if fst (m_buckets t ! ?p) = key then word_of_nat ?p else end_it t))
        \<and> emplace_probe fuel t key val (key_to_idx env t key) =
            Some (Inr (if fst (m_buckets t ! ?p) = key then (t, word_of_nat ?p, False)
                       else (t\<lparr>m_buckets := (m_buckets t)[?p := (key, val)],
                               m_size := m_size t + 1\<rparr>, word_of_nat ?p, True)))"
    if lt: "D < fuel" for fuel
  proof -
    obtain F where F: "fuel = D + Suc F" using lt less_iff_Suc_add by auto
    from find_probe_skip [OF cap hu s, of "Suc F"]
    obtain j where j: "unat j = ?p"
      "find_probe (D + Suc F) t key (key_to_idx env t key) = find_probe (Suc F) t key j"
      by (auto simp: home_def)
    have jw: "j = word_of_nat ?p" unfolding j(1) [symmetric] by simp
    from emplace_probe_skip [OF cap hu s, of "Suc F" val]
    obtain j' where j': "unat j' = ?p"
      "emplace_probe (D + Suc F) t key val (key_to_idx env t key) = emplace_probe (Suc F) t key val j'"
      by (auto simp: home_def)
    have jw': "j' = word_of_nat ?p" unfolding j'(1) [symmetric] by simp
    have a: "find_probe (Suc F) t key (word_of_nat ?p)
        = Some (Inr (if fst (m_buckets t ! ?p) = key then word_of_nat ?p else end_it t))"
      using D(2) pn up by auto
    have b: "emplace_probe (Suc F) t key val (word_of_nat ?p)
        = Some (Inr (if fst (m_buckets t ! ?p) = key then (t, word_of_nat ?p, False)
                       else (t\<lparr>m_buckets := (m_buckets t)[?p := (key, val)],
                               m_size := m_size t + 1\<rparr>, word_of_nat ?p, True)))"
      using D(2) pn up assms(4) by auto
    show ?thesis using a b j(2) j'(2) unfolding jw jw' F fi by simp
  qed
  have "fst (m_buckets t ! ?p) = key \<or> fst (m_buckets t ! ?p) = m_empty_key t"
    using D(2) by blast
  then show ?thesis using D(1,3) short long by blast
qed


theorem probe_loops_terminate_witness:
  "length (m_buckets table_w) = 2 ^ 3
   \<and> 2 * length (occupied_slots table_w) \<le> length (m_buckets table_w)
   \<and> 25 \<noteq> m_empty_key table_w
   \<and> (\<exists>D<length (m_buckets table_w).
     (\<forall>d<D. fst (m_buckets table_w ! ((home env_w table_w 25 + d) mod length (m_buckets table_w))) \<noteq> 25
          \<and> fst (m_buckets table_w ! ((home env_w table_w 25 + d) mod length (m_buckets table_w)))
              \<noteq> m_empty_key table_w)
     \<and> (fst (m_buckets table_w ! ((home env_w table_w 25 + D) mod length (m_buckets table_w))) = 25
        \<or> fst (m_buckets table_w ! ((home env_w table_w 25 + D) mod length (m_buckets table_w)))
            = m_empty_key table_w)
     \<and> (\<forall>fuel\<le>D. find_impl env_w fuel table_w 25 = None
            \<and> emplace_probe fuel table_w 25 7 (key_to_idx env_w table_w 25) = None)
     \<and> (\<forall>fuel>D.
          find_impl env_w fuel table_w 25 =
            Some (Inr (if fst (m_buckets table_w !
                             ((home env_w table_w 25 + D) mod length (m_buckets table_w))) = 25
                       then word_of_nat ((home env_w table_w 25 + D) mod length (m_buckets table_w))
                       else end_it table_w))
        \<and> emplace_probe fuel table_w 25 7 (key_to_idx env_w table_w 25) =
            Some (Inr (if fst (m_buckets table_w !
                             ((home env_w table_w 25 + D) mod length (m_buckets table_w))) = 25
                       then (table_w,
                             word_of_nat ((home env_w table_w 25 + D) mod length (m_buckets table_w)),
                             False)
                       else (table_w\<lparr>m_buckets := (m_buckets table_w)
                                 [(home env_w table_w 25 + D) mod length (m_buckets table_w) := (25, 7)],
                               m_size := m_size table_w + 1\<rparr>,
                             word_of_nat ((home env_w table_w 25 + D) mod length (m_buckets table_w)),
                             True)))))"
proof -
  have a: "length (m_buckets table_w) = 2 ^ 3" "(3::nat) \<le> 63"
    "2 * length (occupied_slots table_w) \<le> length (m_buckets table_w)"
    "(25::nat) \<noteq> m_empty_key table_w"
    by (simp_all add: table_w_def occupied_slots_def)
  show ?thesis
    using a(1,3,4) probe_loops_terminate [OF a, of env_w 7] by blast
qed

section \<open>The sized constructor\<close>

text \<open>
  C4 at \<^verbatim>\<open>hash_map(0)\<close> and \<^verbatim>\<open>hash_map(3)\<close>: the constructor takes the capacity from
  \<^verbatim>\<open>compute_closest_capacity\<close> alone, so the table has 0 and 4 buckets; \<^verbatim>\<open>rehash\<close>
  and the default constructor use \<^verbatim>\<open>minimum_capacity()\<close>.
\<close>

theorem sized_constructor_below_minimum:
  "map_sum id bucket_count (hash_map_sized env_w 0) = Inr 0
   \<and> map_sum id bucket_count (hash_map_sized env_w 3) = Inr 4"
  by (simp add: hash_map_sized_def hash_map_ctor_def compute_closest_capacity_def
      highest_capacity_def smear_loop.simps env_w_def bucket_count_def)

text \<open>
  C10 at \<^verbatim>\<open>hash_map(0)\<close>: the table has no bucket, \<^verbatim>\<open>key_to_idx\<close> masks the hash with
  \<^verbatim>\<open>0 - 1\<close>, and the first access of \<^verbatim>\<open>find\<close>, \<^verbatim>\<open>count\<close> and \<^verbatim>\<open>erase\<close> is
  \<^verbatim>\<open>m_buckets[5]\<close> on an empty vector.
\<close>

theorem find_on_zero_capacity_out_of_bounds:
  "hash_map_sized env_w 0 = Inr \<lparr>m_empty_key = 0, m_buckets = [], m_size = 0\<rparr>
   \<and> key_to_idx env_w \<lparr>m_empty_key = 0, m_buckets = [], m_size = 0\<rparr> 5 = 5
   \<and> find_hm env_w 1 \<lparr>m_empty_key = 0, m_buckets = [], m_size = 0\<rparr> 5 = Some (Inl Out_of_bounds)
   \<and> count_hm env_w 1 \<lparr>m_empty_key = 0, m_buckets = [], m_size = 0\<rparr> 5 = Some (Inl Out_of_bounds)
   \<and> erase env_w 1 \<lparr>m_empty_key = 0, m_buckets = [], m_size = 0\<rparr> 5 = Some (Inl Out_of_bounds)"
  by (simp add: hash_map_sized_def hash_map_ctor_def compute_closest_capacity_def
      highest_capacity_def smear_loop.simps env_w_def find_hm_def count_hm_def erase_def
      erase_impl_key_def count_impl_def find_impl_def key_to_idx_def compute_index_def
      bucket_count_def bind_result_def)

section \<open>Insert, then find\<close>

text \<open>
  C3: let \<open>t\<close> be a reachable table and \<open>key\<close> a key other than the empty key, and let
  \<^verbatim>\<open>insert({key, val})\<close> return the table \<open>t1\<close>, the iterator \<open>it\<close> and the flag
  \<open>inserted\<close>.  The slot at \<open>it\<close> holds \<open>key\<close>, with the value \<open>val\<close> if \<open>inserted\<close>
  is true and with the pair that \<open>t\<close> held for \<open>key\<close> otherwise.  After any sequence of
  calls of \<^verbatim>\<open>insert\<close>, \<^verbatim>\<open>erase\<close> of other keys, \<^verbatim>\<open>rehash\<close> and \<^verbatim>\<open>reserve\<close> that
  returns a table \<open>t2\<close>, \<^verbatim>\<open>find(key)\<close> with fuel for \<^verbatim>\<open>bucket_count()\<close> loop iterations
  returns an iterator other than \<^verbatim>\<open>end()\<close> to a slot of \<open>t2\<close> that holds the same pair,
  and \<^verbatim>\<open>at(key)\<close> returns its value.
\<close>

theorem insert_find_round_trip:
  assumes v: "max_size env < 2 ^ 62" and r: "reachable env t"
    and k: "key \<noteq> m_empty_key t"
    and ins: "insert_hm env fuel t (key, val) = Some (Inr (t1, it, inserted))"
    and ok: "\<forall>op\<in>set ops. allowed (m_empty_key t) key op"
    and run: "run_ops env fuel t1 ops = Some (Inr t2)"
    and fuel': "length (m_buckets t2) \<le> fuel'"
  shows "unat it < length (m_buckets t1) \<and> fst (m_buckets t1 ! unat it) = key
       \<and> (inserted \<longrightarrow> snd (m_buckets t1 ! unat it) = val)
       \<and> (\<not> inserted \<longrightarrow> m_buckets t1 ! unat it \<in> entries t)
       \<and> (\<exists>it2. find_hm env fuel' t2 key = Some (Inr it2) \<and> it2 \<noteq> end_it t2
              \<and> unat it2 < length (m_buckets t2)
              \<and> m_buckets t2 ! unat it2 = m_buckets t1 ! unat it)
       \<and> at_hm env fuel' t2 key = Some (Inr (snd (m_buckets t1 ! unat it)))"
proof -
  let ?x = "m_buckets t1 ! unat it"
  have i: "inv env t" using v r by (rule reachable_inv)
  have e: "emplace_impl env fuel t key val = Some (Inr (t1, it, inserted))"
    using ins by (simp add: insert_hm_def)
  from emplace_impl_correct [OF i v k e]
  have c: "inv env t1" "m_empty_key t1 = m_empty_key t" "unat it < length (m_buckets t1)"
    "fst ?x = key" "inserted \<longrightarrow> snd ?x = val"
    "if key \<in> fst ` entries t then \<not> inserted \<and> entries t1 = entries t else inserted"
    by (simp_all split: if_splits)
  have r1: "reachable env t1" using r k e by (rule reachable.emplace)
  have "occupied t1 (unat it)" using c(2,4) k by (simp add: occupied_def)
  then have x1: "?x \<in> entries t1" unfolding entries_iff using c(3) by blast
  have old: "\<not> inserted \<longrightarrow> ?x \<in> entries t" using c(6) x1 by (auto split: if_splits)
  have ok1: "\<forall>op\<in>set ops. allowed (m_empty_key t1) key op" using ok c(2) by simp
  from run_ops_keeps [OF v r1 ok1 x1 c(4) run]
  have k2: "reachable env t2" "m_empty_key t2 = m_empty_key t1" "?x \<in> entries t2" by simp_all
  have i2: "inv env t2" using v k2(1) by (rule reachable_inv)
  have "length (m_buckets t2) \<noteq> 0" using k2(3) unfolding entries_iff by auto
  with i2 obtain m where cap: "length (m_buckets t2) = 2 ^ m" "m \<le> 63"
    by (auto elim: inv_capacity_cases)
  have key2: "key \<noteq> m_empty_key t2" using k c(2) k2(2) by simp
  have in2: "(key, snd ?x) \<in> entries t2" using k2(3) c(4) [symmetric] by simp
  have px: "(key, snd ?x) = ?x" using c(4) [symmetric] by simp
  from find_impl_lookup [OF i2 cap key2 fuel'] in2
  obtain it2 where "find_impl env fuel' t2 key = Some (Inr it2)" "it2 \<noteq> end_it t2"
    "unat it2 < length (m_buckets t2)" "m_buckets t2 ! unat it2 = (key, snd ?x)"
    by blast
  then have f: "\<exists>it2. find_hm env fuel' t2 key = Some (Inr it2) \<and> it2 \<noteq> end_it t2
              \<and> unat it2 < length (m_buckets t2) \<and> m_buckets t2 ! unat it2 = ?x"
    using px by (auto simp: find_hm_def)
  have a: "at_hm env fuel' t2 key = Some (Inr (snd ?x))"
    using at_impl_lookup(1) [OF i2 cap key2 fuel', of "snd ?x"] in2 by (simp add: at_hm_def)
  show ?thesis using c(3,4,5) old f a by blast
qed

theorem insert_find_round_trip_witness:
  "max_size env_w < 2 ^ 62 \<and> reachable env_w table_w \<and> 25 \<noteq> m_empty_key table_w
   \<and> insert_hm env_w 1025 table_w (25, 250) = Some (Inr (table_w1, 4, True))
   \<and> allowed (m_empty_key table_w) 25 (Erase 9 :: (nat, nat) operation)
   \<and> allowed (m_empty_key table_w) 25 (Insert 33 330 :: (nat, nat) operation)
   \<and> allowed (m_empty_key table_w) 25 (Rehash 16 :: (nat, nat) operation)
   \<and> allowed (m_empty_key table_w) 25 (Insert 25 7 :: (nat, nat) operation)
   \<and> run_ops env_w 1025 table_w1 [Erase 9, Insert 33 330, Rehash 16, Insert 25 7]
        = Some (Inr table_w2)
   \<and> length (m_buckets table_w2) \<le> 16
   \<and> unat (4 :: size_t) < length (m_buckets table_w1)
   \<and> m_buckets table_w1 ! unat (4 :: size_t) = (25, 250)
   \<and> (\<exists>it2. find_hm env_w 16 table_w2 25 = Some (Inr it2) \<and> it2 \<noteq> end_it table_w2
          \<and> unat it2 < length (m_buckets table_w2)
          \<and> m_buckets table_w2 ! unat it2 = (25, 250))
   \<and> at_hm env_w 16 table_w2 25 = Some (Inr 250)"
proof -
  have a: "(25::nat) \<noteq> m_empty_key table_w" by (simp add: table_w_def)
  have b: "insert_hm env_w 1025 table_w (25, 250) = Some (Inr (table_w1, 4, True))"
    by code_simp
  have c: "\<forall>op\<in>set [Erase 9, Insert 33 330, Rehash 16, Insert 25 7].
          allowed (m_empty_key table_w) (25::nat) (op :: (nat, nat) operation)"
    by (simp add: table_w_def)
  have d: "run_ops env_w 1025 table_w1 [Erase 9, Insert 33 330, Rehash 16, Insert 25 7]
        = Some (Inr table_w2)"
    by code_simp
  have e: "length (m_buckets table_w2) \<le> 16" by (simp add: table_w2_def)
  have s: "m_buckets table_w1 ! unat (4 :: size_t) = (25, 250)" by (simp add: table_w1_def)
  from insert_find_round_trip [OF env_w_valid table_w_reachable a b c d e]
  have "unat (4 :: size_t) < length (m_buckets table_w1)
     \<and> (\<exists>it2. find_hm env_w 16 table_w2 25 = Some (Inr it2) \<and> it2 \<noteq> end_it table_w2
          \<and> unat it2 < length (m_buckets table_w2)
          \<and> m_buckets table_w2 ! unat it2 = (25, 250))
     \<and> at_hm env_w 16 table_w2 25 = Some (Inr 250)"
    unfolding s by simp
  then show ?thesis
    using env_w_valid table_w_reachable a b c d e s by simp
qed

section \<open>Erase\<close>

text \<open>
  C1: let \<open>t\<close> be a reachable table and \<open>key\<close> a key other than the empty key that
  \<^verbatim>\<open>at\<close> finds in \<open>t\<close> with the value \<open>val\<close>.  With fuel for \<^verbatim>\<open>bucket_count()\<close> loop
  iterations \<^verbatim>\<open>erase(key)\<close> returns 1 and a reachable table \<open>t'\<close> of the same capacity
  and one entry less, whose content is that of \<open>t\<close> without the pair \<open>(key, val)\<close>.
  In \<open>t'\<close>, \<^verbatim>\<open>find(key)\<close> returns \<^verbatim>\<open>end()\<close>, \<^verbatim>\<open>count(key)\<close> returns 0 and \<^verbatim>\<open>at(key)\<close>
  throws; and every other key that \<^verbatim>\<open>at\<close> found in \<open>t\<close> with a value \<open>v'\<close> is found in
  \<open>t'\<close> by \<^verbatim>\<open>at\<close> with the value \<open>v'\<close> and by \<^verbatim>\<open>find\<close> at a slot that holds \<open>(k', v')\<close>.
\<close>

theorem erase_deletion_complete:
  assumes v: "max_size env < 2 ^ 62" and r: "reachable env t"
    and k: "key \<noteq> m_empty_key t"
    and present: "at_hm env fuel t key = Some (Inr val)"
    and fuel: "length (m_buckets t) \<le> fuel"
  shows "\<exists>t'. erase env fuel t key = Some (Inr (t', 1))
       \<and> reachable env t'
       \<and> m_empty_key t' = m_empty_key t
       \<and> length (m_buckets t') = length (m_buckets t)
       \<and> unat (size_hm t') = unat (size_hm t) - 1
       \<and> entries t' = entries t - {(key, val)}
       \<and> find_hm env fuel t' key = Some (Inr (end_it t'))
       \<and> count_hm env fuel t' key = Some (Inr 0)
       \<and> at_hm env fuel t' key = Some (Inl Key_not_found)
       \<and> (\<forall>k' v'. k' \<noteq> key \<and> k' \<noteq> m_empty_key t \<and> at_hm env fuel t k' = Some (Inr v') \<longrightarrow>
             at_hm env fuel t' k' = Some (Inr v')
             \<and> (\<exists>it. find_hm env fuel t' k' = Some (Inr it) \<and> it \<noteq> end_it t'
                    \<and> unat it < length (m_buckets t') \<and> m_buckets t' ! unat it = (k', v')))"
proof -
  have i: "inv env t" using v r by (rule reachable_inv)
  from at_impl_sound [OF i k present [unfolded at_hm_def]]
  obtain m where e: "(key, val) \<in> entries t" and cap: "length (m_buckets t) = 2 ^ m" "m \<le> 63"
    by blast
  have u: "unique_keys t" using i by (simp add: inv_def)
  have kin: "key \<in> fst ` entries t" using e by force
  from erase_impl_key_correct [OF i cap k fuel] kin
  obtain t' where t': "erase_impl_key env fuel t key = Some (Inr (t', 1))" "inv env t'"
    "length (m_buckets t') = length (m_buckets t)" "m_empty_key t' = m_empty_key t"
    "entries t' = {x \<in> entries t. fst x \<noteq> key}"
    "length (occupied_slots t') = length (occupied_slots t) - 1"
    by auto
  have re: "reachable env t'" using r k t'(1) by (rule reachable.erase_key)
  have cap': "length (m_buckets t') = 2 ^ m" using t'(3) cap(1) by simp
  have k': "key \<noteq> m_empty_key t'" using k t'(4) by simp
  have fuel': "length (m_buckets t') \<le> fuel" using fuel t'(3) by simp
  have sz: "unat (size_hm t') = unat (size_hm t) - 1"
    using i t'(2,6) by (simp add: inv_def size_hm_def)
  have en: "entries t' = entries t - {(key, val)}"
  proof (rule set_eqI)
    fix x
    show "x \<in> entries t' \<longleftrightarrow> x \<in> entries t - {(key, val)}"
    proof (cases "fst x = key")
      case True
      then have "x \<in> entries t \<Longrightarrow> x = (key, val)"
        using entries_unique [OF u _ e, of x] by simp
      then show ?thesis using True t'(5) by auto
    next
      case False
      then show ?thesis using t'(5) by auto
    qed
  qed
  have gone: "key \<notin> fst ` entries t'" using t'(5) by auto
  from find_impl_lookup [OF t'(2) cap' cap(2) k' fuel'] gone
  have f: "find_impl env fuel t' key = Some (Inr (end_it t'))" by auto
  have c: "count_impl env fuel t' key = Some (Inr 0)" using f by (rule count_impl_absent)
  have a: "at_impl env fuel t' key = Some (Inl Key_not_found)"
    using at_impl_lookup(2) [OF t'(2) cap' cap(2) k' fuel'] gone by simp
  have rest: "at_hm env fuel t' k2 = Some (Inr v2)
             \<and> (\<exists>it. find_hm env fuel t' k2 = Some (Inr it) \<and> it \<noteq> end_it t'
                    \<and> unat it < length (m_buckets t') \<and> m_buckets t' ! unat it = (k2, v2))"
    if h: "k2 \<noteq> key" "k2 \<noteq> m_empty_key t" "at_hm env fuel t k2 = Some (Inr v2)" for k2 v2
  proof -
    from at_impl_sound [OF i h(2) h(3) [unfolded at_hm_def]]
    have "(k2, v2) \<in> entries t" by simp
    then have in': "(k2, v2) \<in> entries t'" using t'(5) h(1) by simp
    have k2: "k2 \<noteq> m_empty_key t'" using h(2) t'(4) by simp
    have "at_impl env fuel t' k2 = Some (Inr v2)"
      using at_impl_lookup(1) [OF t'(2) cap' cap(2) k2 fuel'] in' by simp
    moreover from find_impl_lookup [OF t'(2) cap' cap(2) k2 fuel'] in'
    have "\<exists>it. find_impl env fuel t' k2 = Some (Inr it) \<and> it \<noteq> end_it t'
                    \<and> unat it < length (m_buckets t') \<and> m_buckets t' ! unat it = (k2, v2)"
      by blast
    ultimately show ?thesis by (simp add: at_hm_def find_hm_def)
  qed
  have "erase env fuel t key = Some (Inr (t', 1))
       \<and> reachable env t'
       \<and> m_empty_key t' = m_empty_key t
       \<and> length (m_buckets t') = length (m_buckets t)
       \<and> unat (size_hm t') = unat (size_hm t) - 1
       \<and> entries t' = entries t - {(key, val)}
       \<and> find_hm env fuel t' key = Some (Inr (end_it t'))
       \<and> count_hm env fuel t' key = Some (Inr 0)
       \<and> at_hm env fuel t' key = Some (Inl Key_not_found)
       \<and> (\<forall>k' v'. k' \<noteq> key \<and> k' \<noteq> m_empty_key t \<and> at_hm env fuel t k' = Some (Inr v') \<longrightarrow>
             at_hm env fuel t' k' = Some (Inr v')
             \<and> (\<exists>it. find_hm env fuel t' k' = Some (Inr it) \<and> it \<noteq> end_it t'
                    \<and> unat it < length (m_buckets t') \<and> m_buckets t' ! unat it = (k', v')))"
    using t'(1,3,4) re sz en f c a rest
    by (simp add: erase_def find_hm_def count_hm_def at_hm_def)
  then show ?thesis by (rule exI)
qed

theorem erase_deletion_complete_witness:
  "max_size env_w < 2 ^ 62 \<and> reachable env_w table_w \<and> 9 \<noteq> m_empty_key table_w
   \<and> at_hm env_w 8 table_w 9 = Some (Inr 90) \<and> length (m_buckets table_w) \<le> 8
   \<and> (\<exists>t'. erase env_w 8 table_w 9 = Some (Inr (t', 1))
       \<and> reachable env_w t'
       \<and> m_empty_key t' = m_empty_key table_w
       \<and> length (m_buckets t') = length (m_buckets table_w)
       \<and> unat (size_hm t') = unat (size_hm table_w) - 1
       \<and> entries t' = entries table_w - {(9, 90)}
       \<and> find_hm env_w 8 t' 9 = Some (Inr (end_it t'))
       \<and> count_hm env_w 8 t' 9 = Some (Inr 0)
       \<and> at_hm env_w 8 t' 9 = Some (Inl Key_not_found)
       \<and> (\<forall>k' v'. k' \<noteq> 9 \<and> k' \<noteq> m_empty_key table_w \<and> at_hm env_w 8 table_w k' = Some (Inr v') \<longrightarrow>
             at_hm env_w 8 t' k' = Some (Inr v')
             \<and> (\<exists>it. find_hm env_w 8 t' k' = Some (Inr it) \<and> it \<noteq> end_it t'
                    \<and> unat it < length (m_buckets t') \<and> m_buckets t' ! unat it = (k', v'))))"
proof -
  have a: "(9::nat) \<noteq> m_empty_key table_w" by (simp add: table_w_def)
  have b: "at_hm env_w 8 table_w 9 = Some (Inr 90)" by code_simp
  have c: "length (m_buckets table_w) \<le> 8" by (simp add: table_w_def)
  show ?thesis
    using env_w_valid table_w_reachable a b c
      erase_deletion_complete [OF env_w_valid table_w_reachable a b c]
    by blast
qed

section \<open>Insertion of a key that is present\<close>

text \<open>
  C7: let \<open>t\<close> be a reachable table and \<open>key\<close> a key other than the empty key that
  \<^verbatim>\<open>at\<close> finds in \<open>t\<close> with the value \<open>val\<close>.  Whenever \<^verbatim>\<open>insert({key, val'})\<close>
  returns, it returns \<^verbatim>\<open>false\<close> and an iterator to a slot that holds \<open>(key, val)\<close>; the
  content and the size of the table are unchanged (the table itself may have been rehashed
  by the growth check), and \<^verbatim>\<open>at(key)\<close> still returns \<open>val\<close>.  With fuel above
  \<^verbatim>\<open>max_size()\<close> the call does return: it throws \<^verbatim>\<open>length_error\<close> when the growth check
  asks for a table larger than \<^verbatim>\<open>max_size()\<close>, and returns as described otherwise.
\<close>

theorem duplicate_insert_keeps_value:
  assumes v: "max_size env < 2 ^ 62" and r: "reachable env t"
    and k: "key \<noteq> m_empty_key t"
    and present: "at_hm env fuel0 t key = Some (Inr val)"
  shows "(\<forall>t' it ins. insert_hm env fuel t (key, val') = Some (Inr (t', it, ins)) \<longrightarrow>
            \<not> ins \<and> unat it < length (m_buckets t') \<and> m_buckets t' ! unat it = (key, val)
          \<and> entries t' = entries t \<and> size_hm t' = size_hm t
          \<and> (\<forall>fuel'\<ge>length (m_buckets t'). at_hm env fuel' t' key = Some (Inr val)))
       \<and> (max_size env < fuel \<longrightarrow>
            (if length (m_buckets t) < 2 * round_to_float (Suc (unat (size_hm t)))
                \<and> max_size env < max 8 (4 * length (m_buckets t))
             then insert_hm env fuel t (key, val') = Some (Inl Length_error)
             else \<exists>t' it. insert_hm env fuel t (key, val') = Some (Inr (t', it, False))))"
proof -
  have i: "inv env t" using v r by (rule reachable_inv)
  from at_impl_sound [OF i k present [unfolded at_hm_def]]
  obtain m where e: "(key, val) \<in> entries t" and cap: "length (m_buckets t) = 2 ^ m" "m \<le> 63"
    by blast
  have kin: "key \<in> fst ` entries t" using e by force
  have sz: "unat (size_hm t) = length (occupied_slots t)" using i by (simp add: inv_def size_hm_def)
  have a: "\<not> ins \<and> unat it < length (m_buckets t') \<and> m_buckets t' ! unat it = (key, val)
          \<and> entries t' = entries t \<and> size_hm t' = size_hm t
          \<and> (\<forall>fuel'\<ge>length (m_buckets t'). at_hm env fuel' t' key = Some (Inr val))"
    if h: "insert_hm env fuel t (key, val') = Some (Inr (t', it, ins))" for t' it ins
  proof -
    have h': "emplace_impl env fuel t key val' = Some (Inr (t', it, ins))"
      using h by (simp add: insert_hm_def)
    from emplace_impl_correct [OF i v k h'] kin
    have c: "inv env t'" "m_empty_key t' = m_empty_key t" "unat it < length (m_buckets t')"
      "fst (m_buckets t' ! unat it) = key" "\<not> ins" "entries t' = entries t"
      "length (occupied_slots t') = length (occupied_slots t)"
      by simp_all
    have u': "unique_keys t'" using c(1) by (simp add: inv_def)
    have o: "occupied t' (unat it)" using c(2,4) k by (simp add: occupied_def)
    have "m_buckets t' ! unat it \<in> entries t'" unfolding entries_iff using c(3) o by blast
    moreover have e': "(key, val) \<in> entries t'" using e c(6) by simp
    ultimately have slot: "m_buckets t' ! unat it = (key, val)"
      using entries_unique [OF u', of "m_buckets t' ! unat it" "(key, val)"] c(4) by simp
    have "unat (m_size t') = unat (m_size t)" using c(1,7) i by (simp add: inv_def)
    then have s: "size_hm t' = size_hm t" by (simp add: size_hm_def word_unat_eq_iff)
    have "length (m_buckets t') \<noteq> 0" using c(3) by auto
    with c(1) obtain m' where cap': "length (m_buckets t') = 2 ^ m'" "m' \<le> 63"
      by (auto elim: inv_capacity_cases)
    have k': "key \<noteq> m_empty_key t'" using k c(2) by simp
    have "at_hm env fuel' t' key = Some (Inr val)" if "length (m_buckets t') \<le> fuel'" for fuel'
      using at_impl_lookup(1) [OF c(1) cap' k' that, of val] e' by (simp add: at_hm_def)
    then show ?thesis using c(3,5,6) slot s by blast
  qed
  have b: "if length (m_buckets t) < 2 * round_to_float (Suc (unat (size_hm t)))
                \<and> max_size env < max 8 (4 * length (m_buckets t))
             then insert_hm env fuel t (key, val') = Some (Inl Length_error)
             else \<exists>t' it. insert_hm env fuel t (key, val') = Some (Inr (t', it, False))"
    if fuel: "max_size env < fuel"
  proof -
    let ?grow = "length (m_buckets t) < 2 * round_to_float (Suc (length (occupied_slots t)))"
    from emplace_impl_big [OF i v k fuel, of val'] kin
    consider (fail) "?grow" "max_size env < max 8 (4 * length (m_buckets t))"
        "emplace_impl env fuel t key val' = Some (Inl Length_error)"
      | (ok) t' it where "emplace_impl env fuel t key val' = Some (Inr (t', it, False))"
        "inv env t'"
        "length (m_buckets t') = (if ?grow then max 8 (4 * length (m_buckets t))
                                  else length (m_buckets t))"
      by auto
    then show ?thesis
    proof cases
      case fail
      then show ?thesis by (simp add: insert_hm_def sz)
    next
      case ok
      have "length (m_buckets t') \<le> max_size env" using ok(2) by (simp add: inv_def)
      then have "\<not> (?grow \<and> max_size env < max 8 (4 * length (m_buckets t)))"
        using ok(3) by (auto split: if_splits)
      then show ?thesis using ok(1) by (auto simp: insert_hm_def sz)
    qed
  qed
  show ?thesis using a b by blast
qed


theorem duplicate_insert_keeps_value_witness:
  "max_size env_w < 2 ^ 62 \<and> reachable env_w table_w \<and> 9 \<noteq> m_empty_key table_w
   \<and> at_hm env_w 8 table_w 9 = Some (Inr 90)
   \<and> max_size env_w < 1025
   \<and> insert_hm env_w 1025 table_w (9, 7) = Some (Inr (table_w, 2, False))
   \<and> unat (2 :: size_t) < length (m_buckets table_w)
   \<and> m_buckets table_w ! unat (2 :: size_t) = (9, 90)
   \<and> at_hm env_w (length (m_buckets table_w)) table_w 9 = Some (Inr 90)
   \<and> \<not> (length (m_buckets table_w) < 2 * round_to_float (Suc (unat (size_hm table_w)))
         \<and> max_size env_w < max 8 (4 * length (m_buckets table_w)))
   \<and> (\<exists>t' it. insert_hm env_w 1025 table_w (9, 7) = Some (Inr (t', it, False)))"
proof -
  have a: "(9::nat) \<noteq> m_empty_key table_w" by (simp add: table_w_def)
  have b: "at_hm env_w 8 table_w 9 = Some (Inr 90)" by code_simp
  have c: "insert_hm env_w 1025 table_w (9, 7) = Some (Inr (table_w, 2, False))" by code_simp
  have d: "max_size env_w < 1025" by (simp add: env_w_def)
  have e: "\<not> (length (m_buckets table_w) < 2 * round_to_float (Suc (unat (size_hm table_w)))
         \<and> max_size env_w < max 8 (4 * length (m_buckets table_w)))"
    by (simp add: env_w_def table_w_def)
  from duplicate_insert_keeps_value [OF env_w_valid table_w_reachable a b, of 1025 7] c d e
  have "unat (2 :: size_t) < length (m_buckets table_w)
   \<and> m_buckets table_w ! unat (2 :: size_t) = (9, 90)
   \<and> at_hm env_w (length (m_buckets table_w)) table_w 9 = Some (Inr 90)
   \<and> (\<exists>t' it. insert_hm env_w 1025 table_w (9, 7) = Some (Inr (t', it, False)))"
    by auto
  then show ?thesis using env_w_valid table_w_reachable a b c d e by simp
qed

section \<open>Rehash and reserve\<close>

text \<open>
  C8: let \<open>t\<close> be a reachable table.  Whenever \<^verbatim>\<open>rehash(count)\<close> or \<^verbatim>\<open>reserve(count)\<close>
  returns a table \<open>t'\<close>, the key/value pairs of the occupied slots of \<open>t'\<close> are those of
  \<open>t\<close>, no key occurs twice in \<open>t'\<close>, size and empty key are unchanged, and \<^verbatim>\<open>at(key)\<close>
  on \<open>t'\<close> returns \<open>val\<close> exactly for the pairs \<open>(key, val)\<close> of \<open>t\<close>.  With fuel above
  \<^verbatim>\<open>max_size()\<close> both calls return a table or an exception, and \<^verbatim>\<open>rehash\<close> returns a
  table whenever the capacity given by the growth policy is at most \<^verbatim>\<open>max_size()\<close>.
\<close>

theorem rehash_reserve_preserve_contents:
  assumes v: "max_size env < 2 ^ 62" and r: "reachable env t"
  shows "(\<forall>t'. rehash env fuel t count = Some (Inr t') \<or> reserve env fuel t count = Some (Inr t') \<longrightarrow>
            entries t' = entries t \<and> unique_keys t' \<and> size_hm t' = size_hm t
          \<and> m_empty_key t' = m_empty_key t \<and> reachable env t'
          \<and> (\<forall>key val fuel'. key \<noteq> m_empty_key t \<and> length (m_buckets t') \<le> fuel' \<longrightarrow>
                (at_hm env fuel' t' key = Some (Inr val) \<longleftrightarrow> (key, val) \<in> entries t)))
       \<and> (max_size env < fuel \<longrightarrow>
            (\<exists>x. rehash env fuel t count = Some x) \<and> (\<exists>x. reserve env fuel t count = Some x)
          \<and> (\<forall>k\<le>63. compute_closest_capacity (ndebug env) (requested t count) = Inr (2 ^ k)
                     \<and> 2 ^ k \<le> max_size env \<longrightarrow>
                (\<exists>t'. rehash env fuel t count = Some (Inr t') \<and> length (m_buckets t') = 2 ^ k)))"
proof -
  have i: "inv env t" using v r by (rule reachable_inv)
  have a: "entries t' = entries t \<and> unique_keys t' \<and> size_hm t' = size_hm t
          \<and> m_empty_key t' = m_empty_key t \<and> reachable env t'
          \<and> (\<forall>key val fuel'. key \<noteq> m_empty_key t \<and> length (m_buckets t') \<le> fuel' \<longrightarrow>
                (at_hm env fuel' t' key = Some (Inr val) \<longleftrightarrow> (key, val) \<in> entries t))"
    if h: "rehash env fuel t count = Some (Inr t') \<or> reserve env fuel t count = Some (Inr t')"
    for t'
  proof -
    from h obtain c where c: "rehash env fuel t c = Some (Inr t')"
      using reserve_is_rehash by blast
    have re: "reachable env t'" using r c by (rule reachable.rehash)
    from rehash_sound [OF i c] obtain k where s: "inv env t'" "entries t' = entries t"
      "m_empty_key t' = m_empty_key t" "length (occupied_slots t') = length (occupied_slots t)"
      "k \<le> 63" "length (m_buckets t') = 2 ^ k"
      by blast
    have u: "unique_keys t'" using s(1) by (simp add: inv_def)
    have "unat (m_size t') = unat (m_size t)" using s(1,4) i by (simp add: inv_def)
    then have sz: "size_hm t' = size_hm t" by (simp add: size_hm_def word_unat_eq_iff)
    have "at_hm env fuel' t' key = Some (Inr val) \<longleftrightarrow> (key, val) \<in> entries t"
      if "key \<noteq> m_empty_key t" "length (m_buckets t') \<le> fuel'" for key val fuel'
    proof -
      have "key \<noteq> m_empty_key t'" using that(1) s(3) by simp
      from at_impl_lookup(1) [OF s(1) s(6) s(5) this that(2), of val] s(2)
      show ?thesis by (simp add: at_hm_def)
    qed
    then show ?thesis using s(2,3) u sz re by blast
  qed
  have b: "(\<exists>x. rehash env fuel t count = Some x) \<and> (\<exists>x. reserve env fuel t count = Some x)
          \<and> (\<forall>k\<le>63. compute_closest_capacity (ndebug env) (requested t count) = Inr (2 ^ k)
                     \<and> 2 ^ k \<le> max_size env \<longrightarrow>
                (\<exists>t'. rehash env fuel t count = Some (Inr t') \<and> length (m_buckets t') = 2 ^ k))"
    if fuel: "max_size env < fuel"
  proof -
    have "\<exists>t'. rehash env fuel t count = Some (Inr t') \<and> length (m_buckets t') = 2 ^ k"
      if "k \<le> 63" "compute_closest_capacity (ndebug env) (requested t count) = Inr (2 ^ k)"
        "2 ^ k \<le> max_size env" for k
      using rehash_at [OF i that(2,1) fuel] that(3) by simp
    then show ?thesis using rehash_total [OF i fuel, of count] reserve_total [OF i fuel, of count]
      by blast
  qed
  show ?thesis using a b by blast
qed

theorem rehash_reserve_preserve_contents_witness:
  "max_size env_w < 2 ^ 62 \<and> reachable env_w table_w \<and> max_size env_w < 1025
   \<and> rehash env_w 1025 table_w 16 = Some (Inr table_w3)
   \<and> reserve env_w 1025 table_w 16 = Some (Inr table_w4)
   \<and> entries table_w3 = entries table_w \<and> unique_keys table_w3
   \<and> size_hm table_w3 = size_hm table_w \<and> m_empty_key table_w3 = m_empty_key table_w
   \<and> reachable env_w table_w3
   \<and> entries table_w4 = entries table_w \<and> unique_keys table_w4
   \<and> size_hm table_w4 = size_hm table_w \<and> m_empty_key table_w4 = m_empty_key table_w
   \<and> reachable env_w table_w4
   \<and> 17 \<noteq> m_empty_key table_w \<and> length (m_buckets table_w3) \<le> 16
   \<and> length (m_buckets table_w4) \<le> 32
   \<and> (at_hm env_w 16 table_w3 17 = Some (Inr 170) \<longleftrightarrow> (17, 170) \<in> entries table_w)
   \<and> (at_hm env_w 32 table_w4 17 = Some (Inr 170) \<longleftrightarrow> (17, 170) \<in> entries table_w)
   \<and> at_hm env_w 16 table_w3 17 = Some (Inr 170)
   \<and> at_hm env_w 32 table_w4 17 = Some (Inr 170)
   \<and> compute_closest_capacity (ndebug env_w) (requested table_w 16) = Inr (2 ^ 4)
   \<and> 2 ^ 4 \<le> max_size env_w
   \<and> (\<exists>t'. rehash env_w 1025 table_w 16 = Some (Inr t') \<and> length (m_buckets t') = 2 ^ 4)"
proof -
  have a: "rehash env_w 1025 table_w 16 = Some (Inr table_w3)"
    by code_simp
  have b: "reserve env_w 1025 table_w 16 = Some (Inr table_w4)"
    by (simp add: reserve_def float_of_size_t_def size_t_of_float_def max_load_factor_def
        DEFAULT_MAX_LOAD_FACTOR_def round_to_float_small) code_simp
  have c: "max_size env_w < 1025" "(17::nat) \<noteq> m_empty_key table_w"
    "length (m_buckets table_w3) \<le> 16" "length (m_buckets table_w4) \<le> 32"
    "(2::nat) ^ 4 \<le> max_size env_w" "(4::nat) \<le> 63"
    by (simp_all add: env_w_def table_w_def table_w3_def table_w4_def)
  have d: "compute_closest_capacity (ndebug env_w) (requested table_w 16) = Inr (2 ^ 4)"
    by code_simp
  have e: "at_hm env_w 16 table_w3 17 = Some (Inr 170)" "at_hm env_w 32 table_w4 17 = Some (Inr 170)"
    by code_simp+
  note t = rehash_reserve_preserve_contents [OF env_w_valid table_w_reachable, of 1025 16]
  from t a have p3: "entries table_w3 = entries table_w \<and> unique_keys table_w3
   \<and> size_hm table_w3 = size_hm table_w \<and> m_empty_key table_w3 = m_empty_key table_w
   \<and> reachable env_w table_w3
   \<and> (at_hm env_w 16 table_w3 17 = Some (Inr 170) \<longleftrightarrow> (17, 170) \<in> entries table_w)"
    using c(2,3) by blast
  from t b have p4: "entries table_w4 = entries table_w \<and> unique_keys table_w4
   \<and> size_hm table_w4 = size_hm table_w \<and> m_empty_key table_w4 = m_empty_key table_w
   \<and> reachable env_w table_w4
   \<and> (at_hm env_w 32 table_w4 17 = Some (Inr 170) \<longleftrightarrow> (17, 170) \<in> entries table_w)"
    using c(2,4) by blast
  from t c(1,5,6) d
  have p5: "\<exists>t'. rehash env_w 1025 table_w 16 = Some (Inr t') \<and> length (m_buckets t') = 2 ^ 4"
    by blast
  show ?thesis
    using env_w_valid table_w_reachable a b c(1,2,3,4,5) d e p3 p4 p5 by blast
qed

section \<open>Size and load of a large table\<close>

text \<open>
  C2 at \<open>table_big\<close>, a reachable table with \<open>2 ^ 24\<close> entries in \<open>2 ^ 25\<close> buckets:
  the insertion of the key \<open>2 ^ 24 + 1\<close> returns a table with 16777217 entries in
  33554432 buckets, more than half full.  The growth check converts \<^verbatim>\<open>size() + 1\<close>,
  16777217, to \<^verbatim>\<open>float\<close>, which gives 16777216, and this does not exceed
  \<^verbatim>\<open>bucket_count() * 0.5f\<close>.
\<close>

theorem load_factor_exceeded_large_table:
  "reachable env_big table_big
   \<and> unat (size_hm table_big) = 16777216 \<and> unat (bucket_count table_big) = 33554432
   \<and> insert_hm env_big 1 table_big (16777217, 0)
      = Some (Inr (table_filled 16777217, 16777217, True))
   \<and> reachable env_big (table_filled 16777217)
   \<and> unat (size_hm (table_filled 16777217)) = 16777217
   \<and> unat (bucket_count (table_filled 16777217)) = 33554432"
proof -
  have e: "(16777217::nat) \<noteq> m_empty_key table_big" by (simp add: table_big_facts(4))
  have r: "reachable env_big (table_filled 16777217)"
    by (rule reachable.emplace [OF table_big_reachable e table_big_insert])
  have i: "insert_hm env_big 1 table_big (16777217, 0)
      = Some (Inr (table_filled 16777217, 16777217, True))"
    using table_big_insert by (simp add: insert_hm_def)
  have s: "unat (size_hm (table_filled 16777217)) = 16777217"
    by (simp add: size_hm_def table_filled_def)
  have b: "unat (bucket_count (table_filled 16777217)) = 33554432"
    by (simp add: bucket_count_def table_filled_length)
  show ?thesis using table_big_reachable table_big_facts(1,2) r i s b by simp
qed

text \<open>
  C6 at \<open>table_big\<close>: \<^verbatim>\<open>size() + 1\<close> is 16777217 and \<^verbatim>\<open>bucket_count() * 0.5\<close> is
  16777216, and \<^verbatim>\<open>check_for_rehash\<close> returns the table as it is, without a rehash.
\<close>

theorem growth_check_misses_large_table:
  "reachable env_big table_big
   \<and> unat (size_hm table_big) + 1 = 16777217
   \<and> unat (bucket_count table_big) = 33554432
   \<and> check_for_rehash env_big 1 table_big = Some (Inr table_big)"
  using table_big_reachable table_big_facts(1,2) table_big_check [of 1] by simp

end
